theory Spec2Isabelle
  imports Main "HOL-Library.Word"
begin

unbundle bit_operations_syntax

section \<open>Hamming block codec (hamming_codec.cpp)\<close>

type_synonym u8 = "8 word"
type_synonym u32 = "32 word"

text \<open>
  The codec object holds \<open>data_bits_\<close>, \<open>parity_bits_\<close> and
  \<open>total_bits_ = data_bits_ + parity_bits_\<close>. The C++ \<open>int\<close> loop counters stay far
  below \<open>2^31\<close> for the admitted parameters and are natural numbers here; codewords are
  \<open>uint32_t\<close> and are 32-bit words.
\<close>

record HammingOptions =
  data_bits :: nat
  parity_bits :: nat

definition total_bits :: "HammingOptions \<Rightarrow> nat" where
  "total_bits opts = data_bits opts + parity_bits opts"

text \<open>\<open>(bit_position & (bit_position - 1)) == 0\<close>\<close>

definition is_parity_position :: "nat \<Rightarrow> bool" where
  "is_parity_position bit_position \<longleftrightarrow> bit_position AND (bit_position - 1) = 0"

text \<open>
  The inner loop shared by \<open>CalculateSyndrome\<close> and \<open>EncodeBlock\<close>: for
  \<open>bit_index = 1 .. total_bits\<close>, toggle \<open>parity_value\<close> when the index is covered by
  \<open>parity_position\<close> and the codeword bit \<open>bit_index - 1\<close> is set.
\<close>

definition parity_step :: "u32 \<Rightarrow> nat \<Rightarrow> nat \<Rightarrow> bool \<Rightarrow> bool" where
  "parity_step codeword parity_position bit_index parity_value =
     (if bit_index AND parity_position \<noteq> 0 then
        (if codeword AND push_bit (bit_index - 1) 1 \<noteq> 0 then \<not> parity_value else parity_value)
      else parity_value)"

definition parity_value_of :: "u32 \<Rightarrow> nat \<Rightarrow> nat \<Rightarrow> bool" where
  "parity_value_of codeword tbits parity_position =
     fold (parity_step codeword parity_position) [1..<Suc tbits] False"

function syndrome_loop :: "u32 \<Rightarrow> nat \<Rightarrow> nat \<Rightarrow> nat \<Rightarrow> nat" where
  "syndrome_loop codeword tbits parity_position syndrome =
     (if 0 < parity_position \<and> parity_position \<le> tbits then
        syndrome_loop codeword tbits (push_bit 1 parity_position)
          (if parity_value_of codeword tbits parity_position
           then syndrome OR parity_position else syndrome)
      else syndrome)"
  by pat_completeness auto
termination
  by (relation "measure (\<lambda>(c, n, p, s). Suc n - p)") (auto simp: push_bit_eq_mult)

definition CalculateSyndrome :: "u32 \<Rightarrow> nat \<Rightarrow> nat" where
  "CalculateSyndrome codeword tbits = syndrome_loop codeword tbits 1 0"

definition extract_step :: "u32 \<Rightarrow> nat \<Rightarrow> u32 \<times> nat \<Rightarrow> u32 \<times> nat" where
  "extract_step codeword bit_position st =
     (case st of (data_value, data_index) \<Rightarrow>
        if is_parity_position bit_position then (data_value, data_index)
        else (if drop_bit (bit_position - 1) codeword AND 1 \<noteq> 0
              then data_value OR push_bit data_index 1 else data_value,
              Suc data_index))"

definition ExtractDataBits :: "u32 \<Rightarrow> nat \<Rightarrow> u32" where
  "ExtractDataBits codeword tbits = fst (fold (extract_step codeword) [1..<Suc tbits] (0, 0))"

definition place_step :: "u32 \<Rightarrow> nat \<Rightarrow> u32 \<times> nat \<Rightarrow> u32 \<times> nat" where
  "place_step data_value bit_position st =
     (case st of (codeword, data_index) \<Rightarrow>
        if is_parity_position bit_position then (codeword, data_index)
        else (if drop_bit data_index data_value AND 1 \<noteq> 0
              then codeword OR push_bit (bit_position - 1) 1 else codeword,
              Suc data_index))"

function encode_parity_loop :: "nat \<Rightarrow> nat \<Rightarrow> u32 \<Rightarrow> u32" where
  "encode_parity_loop tbits parity_position codeword =
     (if 0 < parity_position \<and> parity_position \<le> tbits then
        encode_parity_loop tbits (push_bit 1 parity_position)
          (if parity_value_of codeword tbits parity_position
           then codeword OR push_bit (parity_position - 1) 1 else codeword)
      else codeword)"
  by pat_completeness auto
termination
  by (relation "measure (\<lambda>(n, p, c). Suc n - p)") (auto simp: push_bit_eq_mult)

definition EncodeBlock :: "HammingOptions \<Rightarrow> u32 \<Rightarrow> u32" where
  "EncodeBlock opts data_value =
     encode_parity_loop (total_bits opts) 1
       (fst (fold (place_step data_value) [1..<Suc (total_bits opts)] (0, 0)))"

definition DecodeBlock :: "HammingOptions \<Rightarrow> u32 \<Rightarrow> u32 \<times> bool" where
  "DecodeBlock opts codeword0 =
     (let syndrome = CalculateSyndrome codeword0 (total_bits opts);
          (codeword, has_error) =
            (if syndrome \<noteq> 0 then
               (if syndrome \<le> total_bits opts
                then (codeword0 XOR push_bit (syndrome - 1) 1, False)
                else (codeword0, True))
             else (codeword0, False));
          has_error' =
            (if \<not> has_error then CalculateSyndrome codeword (total_bits opts) \<noteq> 0
             else has_error)
      in (if \<not> has_error' then ExtractDataBits codeword (total_bits opts) else 0, has_error'))"

section \<open>Byte streams\<close>

text \<open>
  A \<open>std::istream\<close> is the byte sequence behind it, the read position and the state
  flags \<open>eofbit\<close> and \<open>failbit\<close> (\<open>badbit\<close> is not told apart from \<open>failbit\<close>);
  \<open>good()\<close> holds when no flag is set.
\<close>

record istream =
  ibuf :: "u8 list"
  ipos :: nat
  ieof :: bool
  ifail :: bool

definition igood :: "istream \<Rightarrow> bool" where
  "igood s \<longleftrightarrow> \<not> ieof s \<and> \<not> ifail s"

text \<open>A freshly opened input stream over the bytes \<open>bs\<close>.\<close>

definition istream_of :: "u8 list \<Rightarrow> istream" where
  "istream_of bs = \<lparr>ibuf = bs, ipos = 0, ieof = False, ifail = False\<rparr>"

text \<open>
  \<open>in.read(&c, 1)\<close>: on a stream that is not good it sets \<open>failbit\<close> and reads nothing;
  at the end of the data it sets \<open>eofbit\<close> and \<open>failbit\<close>; otherwise it delivers one byte.
\<close>

definition read_byte :: "istream \<Rightarrow> u8 option \<times> istream" where
  "read_byte s =
     (if \<not> igood s then (None, s\<lparr>ifail := True\<rparr>)
      else if ipos s < length (ibuf s) then (Some (ibuf s ! ipos s), s\<lparr>ipos := Suc (ipos s)\<rparr>)
      else (None, s\<lparr>ieof := True, ifail := True\<rparr>))"

text \<open>
  A \<open>std::ostream\<close> is the bytes written so far, the number of bytes the device still
  accepts (\<open>None\<close>: no limit, as for a stream in memory) and \<open>badbit\<close>. A write beyond the
  limit fails and sets \<open>badbit\<close>; this is how a failing device (a full disk) appears.
  Buffering inside the stream is not modelled: a failed write is seen at once.
\<close>

record ostream =
  obuf :: "u8 list"
  oroom :: "nat option"
  obad :: bool

definition ogood :: "ostream \<Rightarrow> bool" where
  "ogood s \<longleftrightarrow> \<not> obad s"

text \<open>An empty output stream that never fails.\<close>

definition ostream_unbounded :: ostream where
  "ostream_unbounded = \<lparr>obuf = [], oroom = None, obad = False\<rparr>"

text \<open>\<open>out.write(p, n)\<close> for the \<open>n\<close> bytes \<open>bs\<close>; \<open>out.put(c)\<close> is \<open>write\<close> of one byte.\<close>

definition write_bytes :: "u8 list \<Rightarrow> ostream \<Rightarrow> ostream" where
  "write_bytes bs s =
     (if obad s then s
      else case oroom s of
        None \<Rightarrow> s\<lparr>obuf := obuf s @ bs\<rparr>
      | Some room \<Rightarrow>
          if length bs \<le> room then s\<lparr>obuf := obuf s @ bs, oroom := Some (room - length bs)\<rparr>
          else s\<lparr>obad := True\<rparr>)"

definition put :: "u8 \<Rightarrow> ostream \<Rightarrow> ostream" where
  "put c s = write_bytes [c] s"

section \<open>Streaming encoder and decoder (hamming_codec.cpp)\<close>

text \<open>
  \<open>uint64_t\<close> arithmetic: the counters are natural numbers and every operation that can
  exceed 64 bits is reduced with \<open>u64\<close>. For evaluation \<open>u64\<close> is computed bit by bit
  (\<open>low_bits\<close>), which never builds the number \<open>2^64\<close>.
\<close>

definition u64 :: "nat \<Rightarrow> nat" where
  "u64 x = x mod 2 ^ 64"

fun low_bits :: "nat \<Rightarrow> nat \<Rightarrow> nat" where
  "low_bits 0 x = 0"
| "low_bits (Suc n) x = x mod 2 + 2 * low_bits n (x div 2)"

text \<open>
  The body of the loop of \<open>EncodeAndWriteBlock\<close>, which is also
  \<open>WriteDecodedBitToStream\<close>: put the bit into \<open>out_byte\<close> at \<open>out_bit_count\<close>, and when the
  byte is full write it and start a new one. The result is \<open>false\<close> when the stream is not
  good after the write.
\<close>

definition WriteDecodedBitToStream ::
  "bool \<Rightarrow> u8 \<times> nat \<times> ostream \<Rightarrow> bool \<times> (u8 \<times> nat \<times> ostream)" where
  "WriteDecodedBitToStream bit_value st =
     (case st of (out_byte, out_bit_fill, out) \<Rightarrow>
        let out_byte' = (if bit_value then out_byte OR push_bit out_bit_fill 1 else out_byte);
            out_bit_fill' = Suc out_bit_fill
        in if out_bit_fill' \<noteq> 8 then (True, (out_byte', out_bit_fill', out))
           else let out' = put out_byte' out
                in if \<not> ogood out' then (False, (out_byte', out_bit_fill', out'))
                   else (True, (0, 0, out')))"

text \<open>
  The \<open>for\<close> loop over \<open>bit_index\<close> that writes the bits \<open>(word >> bit_index) & 1\<close> of a
  32-bit value, leaving at the first failed write. \<open>EncodeAndWriteBlock\<close> runs it over
  \<open>0 .. total_bits - 1\<close> of the codeword, \<open>DecodeStream\<close> over \<open>0 .. bits_to_output - 1\<close>
  of the decoded data.
\<close>

fun write_word_bits ::
  "u32 \<Rightarrow> nat list \<Rightarrow> u8 \<times> nat \<times> ostream \<Rightarrow> bool \<times> (u8 \<times> nat \<times> ostream)" where
  "write_word_bits w [] st = (True, st)"
| "write_word_bits w (bit_index # rest) st =
     (case WriteDecodedBitToStream (drop_bit bit_index w AND 1 \<noteq> 0) st of
        (False, st') \<Rightarrow> (False, st')
      | (True, st') \<Rightarrow> write_word_bits w rest st')"

definition EncodeAndWriteBlock ::
  "HammingOptions \<Rightarrow> u32 \<Rightarrow> u8 \<times> nat \<times> ostream \<Rightarrow> bool \<times> (u8 \<times> nat \<times> ostream)" where
  "EncodeAndWriteBlock opts data_block st =
     write_word_bits (EncodeBlock opts data_block) [0..<total_bits opts] st"

definition FlushOutputByte :: "u8 \<Rightarrow> nat \<Rightarrow> ostream \<Rightarrow> bool \<times> ostream" where
  "FlushOutputByte out_byte out_bit_count out =
     (if out_bit_count = 0 then (True, out)
      else let out' = put out_byte out in (ogood out', out'))"

definition ReadNextEncodedBit ::
  "istream \<times> u8 \<times> nat \<Rightarrow> bool \<times> bool \<times> (istream \<times> u8 \<times> nat)" where
  "ReadNextEncodedBit st =
     (case st of (ins, in_byte, in_bits_available) \<Rightarrow>
        case (if in_bits_available = 0 then
                (case read_byte ins of
                   (None, ins') \<Rightarrow> (False, ins', in_byte, in_bits_available)
                 | (Some b, ins') \<Rightarrow> (True, ins', b, 8))
              else (True, ins, in_byte, in_bits_available)) of
          (False, ins', in_byte', avail') \<Rightarrow> (False, False, (ins', in_byte', avail'))
        | (True, ins', in_byte', avail') \<Rightarrow>
            (True, in_byte' AND 1 \<noteq> 0, (ins', drop_bit 1 in_byte', avail' - 1)))"

text \<open>
  The inner \<open>for\<close> loop of \<open>EncodeStream\<close> over the bits of one input byte. The state is
  \<open>(data_block, data_block_bits, output_byte, output_bits_in_byte, out)\<close>.
\<close>

type_synonym encode_state = "u32 \<times> nat \<times> u8 \<times> nat \<times> ostream"

fun encode_input_bits ::
  "HammingOptions \<Rightarrow> u8 \<Rightarrow> nat list \<Rightarrow> encode_state \<Rightarrow> bool \<times> encode_state" where
  "encode_input_bits opts input_byte [] st = (True, st)"
| "encode_input_bits opts input_byte (bit_index # rest)
     (data_block, data_block_bits, output_byte, output_bits_in_byte, out) =
     (let data_block' = (if drop_bit bit_index input_byte AND 1 \<noteq> 0
                         then data_block OR push_bit data_block_bits 1 else data_block);
          data_block_bits' = Suc data_block_bits
      in if data_block_bits' = data_bits opts then
           (case EncodeAndWriteBlock opts data_block' (output_byte, output_bits_in_byte, out) of
              (False, (ob, cnt, out')) \<Rightarrow> (False, (data_block', data_block_bits', ob, cnt, out'))
            | (True, (ob, cnt, out')) \<Rightarrow> encode_input_bits opts input_byte rest (0, 0, ob, cnt, out'))
         else encode_input_bits opts input_byte rest
                (data_block', data_block_bits', output_byte, output_bits_in_byte, out))"

text \<open>The \<open>while (in.read(&input_byte, 1))\<close> loop; \<open>True\<close> when it ended because a read failed.\<close>

function encode_loop ::
  "HammingOptions \<Rightarrow> istream \<Rightarrow> encode_state \<Rightarrow> bool \<times> istream \<times> encode_state" where
  "encode_loop opts ins st =
     (case read_byte ins of
        (None, ins') \<Rightarrow> (True, ins', st)
      | (Some input_byte, ins') \<Rightarrow>
          (case encode_input_bits opts input_byte [0..<8] st of
             (False, st') \<Rightarrow> (False, ins', st')
           | (True, st') \<Rightarrow> encode_loop opts ins' st'))"
  by pat_completeness auto
termination
  by (relation "measure (\<lambda>(opts, ins, st). length (ibuf ins) - ipos ins)")
     (auto simp: read_byte_def split: if_splits)

definition EncodeStream :: "HammingOptions \<Rightarrow> istream \<Rightarrow> ostream \<Rightarrow> bool \<times> istream \<times> ostream" where
  "EncodeStream opts ins out =
     (if \<not> igood ins \<or> \<not> ogood out then (False, ins, out)
      else case encode_loop opts ins (0, 0, 0, 0, out) of
        (False, ins', (data_block, data_block_bits, output_byte, output_bits_in_byte, out')) \<Rightarrow>
          (False, ins', out')
      | (True, ins', (data_block, data_block_bits, output_byte, output_bits_in_byte, out')) \<Rightarrow>
          if \<not> ieof ins' then (False, ins', out')
          else case (if 0 < data_block_bits
                     then EncodeAndWriteBlock opts data_block (output_byte, output_bits_in_byte, out')
                     else (True, (output_byte, output_bits_in_byte, out'))) of
                 (False, (ob, cnt, out'')) \<Rightarrow> (False, ins', out'')
               | (True, (ob, cnt, out'')) \<Rightarrow>
                   (case FlushOutputByte ob cnt out'' of (ok, out''') \<Rightarrow> (ok, ins', out''')))"

record decode_state =
  ds_in :: istream
  input_byte :: u8
  input_bits_available :: nat
  bits_read :: nat
  codeword_value :: u32
  codeword_bits_collected :: nat
  output_byte :: u8
  output_bits_filled :: nat
  bits_written :: nat
  ds_out :: ostream

text \<open>
  The first half of the body of the \<open>while\<close> loop of \<open>DecodeStream\<close> after a bit was
  read: store the bit in \<open>codeword_value\<close> and count it.
\<close>

definition collect_bit :: "decode_state \<Rightarrow> bool \<Rightarrow> istream \<times> u8 \<times> nat \<Rightarrow> decode_state" where
  "collect_bit s encoded_bit rd =
     (case rd of (ins, ib, av) \<Rightarrow>
        s\<lparr>ds_in := ins, input_byte := ib, input_bits_available := av,
          codeword_value :=
            (if encoded_bit then codeword_value s OR push_bit (codeword_bits_collected s) 1
             else codeword_value s),
          codeword_bits_collected := Suc (codeword_bits_collected s),
          bits_read := Suc (bits_read s)\<rparr>)"

text \<open>
  The second half, run when \<open>codeword_bits_collected == total_bits_\<close>: decode the block,
  fail on an error, write \<open>bits_to_output\<close> data bits and reset the codeword. The sum in
  \<open>bits_written + bits_to_output > original_bits\<close> is a \<open>uint64_t\<close> sum. \<open>bits_written\<close>
  never exceeds \<open>original_bits\<close>, so the difference and the update do not wrap.
\<close>

definition emit_block :: "HammingOptions \<Rightarrow> nat \<Rightarrow> decode_state \<Rightarrow> bool \<times> decode_state" where
  "emit_block opts original_bits s =
     (case DecodeBlock opts (codeword_value s) of
        (decoded_data, has_error) \<Rightarrow>
          if has_error then (False, s)
          else
            let bits_to_output =
                  (if original_bits < u64 (bits_written s + data_bits opts)
                   then original_bits - bits_written s
                   else data_bits opts)
            in case write_word_bits decoded_data [0..<bits_to_output]
                      (output_byte s, output_bits_filled s, ds_out s) of
                 (False, (ob, cnt, out')) \<Rightarrow>
                   (False, s\<lparr>output_byte := ob, output_bits_filled := cnt, ds_out := out'\<rparr>)
               | (True, (ob, cnt, out')) \<Rightarrow>
                   (True, s\<lparr>output_byte := ob, output_bits_filled := cnt, ds_out := out',
                             bits_written := bits_written s + bits_to_output,
                             codeword_value := 0, codeword_bits_collected := 0\<rparr>))"

lemma bits_read_emit_block: "bits_read (snd (emit_block opts original_bits s)) = bits_read s"
  by (auto simp: emit_block_def Let_def split: prod.splits bool.splits)

text \<open>
  The \<open>while (bits_read < total_code_bits)\<close> loop of \<open>DecodeStream\<close>. \<open>bits_read\<close> stays
  below \<open>total_code_bits < 2^64\<close>, so its increment does not wrap.
\<close>

function decode_loop :: "HammingOptions \<Rightarrow> nat \<Rightarrow> nat \<Rightarrow> decode_state \<Rightarrow> bool \<times> decode_state" where
  "decode_loop opts original_bits total_code_bits s =
     (if bits_read s < total_code_bits then
        (case ReadNextEncodedBit (ds_in s, input_byte s, input_bits_available s) of
           (False, encoded_bit, (ins, ib, av)) \<Rightarrow>
             (False, s\<lparr>ds_in := ins, input_byte := ib, input_bits_available := av\<rparr>)
         | (True, encoded_bit, rd) \<Rightarrow>
             if codeword_bits_collected (collect_bit s encoded_bit rd) \<noteq> total_bits opts
             then decode_loop opts original_bits total_code_bits (collect_bit s encoded_bit rd)
             else (case emit_block opts original_bits (collect_bit s encoded_bit rd) of
                     (False, s') \<Rightarrow> (False, s')
                   | (True, s') \<Rightarrow> decode_loop opts original_bits total_code_bits s'))
      else (True, s))"
  by pat_completeness auto
termination
proof (relation "measure (\<lambda>(opts, ob, total, s). total - bits_read s)")
  show "wf (measure (\<lambda>(opts, ob, total, s). total - bits_read s))" by simp
next
  fix opts :: HammingOptions and original_bits total_code_bits :: nat and s :: decode_state
    and x y encoded_bit rd
  assume "bits_read s < total_code_bits"
  then show "((opts, original_bits, total_code_bits, collect_bit s encoded_bit rd),
              opts, original_bits, total_code_bits, s)
             \<in> measure (\<lambda>(opts, ob, total, s). total - bits_read s)"
    by (auto simp: collect_bit_def split: prod.splits)
next
  fix opts :: HammingOptions and original_bits total_code_bits :: nat and s s' :: decode_state
    and encoded_bit rd and ok :: bool
  assume lt: "bits_read s < total_code_bits"
    and e: "(ok, s') = emit_block opts original_bits (collect_bit s encoded_bit rd)"
  have "bits_read s' = bits_read (collect_bit s encoded_bit rd)"
    using bits_read_emit_block [of opts original_bits "collect_bit s encoded_bit rd"] e [symmetric]
    by simp
  also have "\<dots> = Suc (bits_read s)"
    by (simp add: collect_bit_def split: prod.splits)
  finally show "((opts, original_bits, total_code_bits, s'), opts, original_bits, total_code_bits, s)
             \<in> measure (\<lambda>(opts, ob, total, s). total - bits_read s)"
    using lt by simp
qed

text \<open>
  \<open>DecodeStream(in, out, original_size, encoded_size)\<close>; the last parameter is unnamed
  and unused in the source. The result carries both streams as the call leaves them.
\<close>

definition DecodeStream ::
  "HammingOptions \<Rightarrow> istream \<Rightarrow> ostream \<Rightarrow> nat \<Rightarrow> nat \<Rightarrow> bool \<times> istream \<times> ostream" where
  "DecodeStream opts ins out original_size encoded_size =
     (if \<not> igood ins \<or> \<not> ogood out then (False, ins, out)
      else
        let original_bits = u64 (original_size * 8)
        in if original_bits = 0 then (True, ins, out)
           else
             let codeword_count = u64 (original_bits + data_bits opts - 1) div data_bits opts;
                 total_code_bits = u64 (codeword_count * total_bits opts)
             in case decode_loop opts original_bits total_code_bits
                       \<lparr>ds_in = ins, input_byte = 0, input_bits_available = 0, bits_read = 0,
                        codeword_value = 0, codeword_bits_collected = 0, output_byte = 0,
                        output_bits_filled = 0, bits_written = 0, ds_out = out\<rparr> of
                  (False, s) \<Rightarrow> (False, ds_in s, ds_out s)
                | (True, s) \<Rightarrow>
                    (case FlushOutputByte (output_byte s) (output_bits_filled s) (ds_out s) of
                       (ok, out') \<Rightarrow> (ok, ds_in s, out')))"

section \<open>Archive format and engine (archiver.cpp)\<close>

text \<open>
  \<open>CalculateEncodedSize(codec, original_size)\<close>, all in \<open>uint64_t\<close>. The division is by
  \<open>data_bits\<close>, which the command line keeps positive.
\<close>

definition CalculateEncodedSize :: "HammingOptions \<Rightarrow> nat \<Rightarrow> nat" where
  "CalculateEncodedSize codec original_size =
     (let original_bits = u64 (original_size * 8);
          dbits = u64 (data_bits codec);
          pbits = u64 (parity_bits codec);
          codeword_bits = u64 (dbits + pbits);
          codeword_count = u64 (original_bits + dbits - 1) div dbits;
          total_code_bits = u64 (codeword_count * codeword_bits)
      in u64 (total_code_bits + 7) div 8)"

subsection \<open>Auxiliary notions for the block codec\<close>

definition covered :: "u32 \<Rightarrow> nat \<Rightarrow> nat \<Rightarrow> bool" where
  "covered codeword parity_position q \<longleftrightarrow> q AND parity_position \<noteq> 0 \<and> bit codeword (q - 1)"

definition parity_fold :: "u32 \<Rightarrow> nat \<Rightarrow> nat list \<Rightarrow> bool" where
  "parity_fold c pp qs = fold (parity_step c pp) qs False"

definition data_index_at :: "nat \<Rightarrow> nat" where
  "data_index_at p = length (filter (\<lambda>q. \<not> is_parity_position q) [1..<p])"

definition placed :: "nat \<Rightarrow> u32 \<Rightarrow> u32" where
  "placed n d = fst (fold (place_step d) [1..<Suc n] (0, 0))"

definition data_positions :: "nat \<Rightarrow> nat" where
  "data_positions n = length (filter (\<lambda>q. \<not> is_parity_position q) [1..<Suc n])"

declare syndrome_loop.simps [simp del]
declare encode_parity_loop.simps [simp del]

subsection \<open>Auxiliary notions for the streaming codec\<close>

text \<open>Bits of a byte and of a byte sequence, least-significant bit first.\<close>

definition bits_of_byte :: "u8 \<Rightarrow> bool list" where
  "bits_of_byte b = map (bit b) [0..<8]"

definition bits_of_bytes :: "u8 list \<Rightarrow> bool list" where
  "bits_of_bytes bs = concat (map bits_of_byte bs)"

definition word_of_bits :: "bool list \<Rightarrow> u32" where
  "word_of_bits bs = horner_sum of_bool 2 bs"

definition word_bits :: "nat \<Rightarrow> u32 \<Rightarrow> bool list" where
  "word_bits n w = map (bit w) [0..<n]"

text \<open>The bit sequence a bit writer has been given, and its well-formedness.\<close>

definition writer_bits :: "u8 \<times> nat \<times> ostream \<Rightarrow> bool list" where
  "writer_bits st = (case st of (ob, cnt, out) \<Rightarrow> bits_of_bytes (obuf out) @ map (bit ob) [0..<cnt])"

definition writer_ok :: "u8 \<times> nat \<times> ostream \<Rightarrow> bool" where
  "writer_ok st = (case st of (ob, cnt, out) \<Rightarrow>
     cnt < 8 \<and> take_bit cnt ob = ob \<and> \<not> obad out \<and> oroom out = None)"

text \<open>The bit sequence a bit reader will still deliver.\<close>

definition reader_bits :: "istream \<times> u8 \<times> nat \<Rightarrow> bool list" where
  "reader_bits st = (case st of (ins, ib, av) \<Rightarrow>
     map (bit ib) [0..<av] @ bits_of_bytes (drop (ipos ins) (ibuf ins)))"

definition reader_ok :: "istream \<times> u8 \<times> nat \<Rightarrow> bool" where
  "reader_ok st = (case st of (ins, ib, av) \<Rightarrow> igood ins \<and> av \<le> 8)"

text \<open>The encoded bit sequence of a data bit sequence: one codeword per block of \<open>k\<close> bits.\<close>

function enc_bits :: "HammingOptions \<Rightarrow> bool list \<Rightarrow> bool list" where
  "enc_bits opts bs =
     (if bs = [] \<or> data_bits opts = 0 then []
      else word_bits (total_bits opts) (EncodeBlock opts (word_of_bits (take (data_bits opts) bs)))
           @ enc_bits opts (drop (data_bits opts) bs))"
  by pat_completeness auto
termination
  by (relation "measure (\<lambda>(opts, bs). length bs)") auto

declare enc_bits.simps [simp del]
declare encode_loop.simps [simp del]
declare decode_loop.simps [simp del]

text \<open>Invariant of the encoder state and the bit sequence it stands for.\<close>

definition enc_ok :: "HammingOptions \<Rightarrow> encode_state \<Rightarrow> bool" where
  "enc_ok opts st = (case st of (db, dbb, ob, cnt, out) \<Rightarrow>
     writer_ok (ob, cnt, out) \<and> dbb < data_bits opts \<and> take_bit dbb db = db)"

definition enc_view :: "HammingOptions \<Rightarrow> encode_state \<Rightarrow> bool list \<Rightarrow> bool list" where
  "enc_view opts st rest = (case st of (db, dbb, ob, cnt, out) \<Rightarrow>
     writer_bits (ob, cnt, out) @ enc_bits opts (map (bit db) [0..<dbb] @ rest))"

text \<open>The reader and the writer inside a decoder state.\<close>

definition rd :: "decode_state \<Rightarrow> istream \<times> u8 \<times> nat" where
  "rd s = (ds_in s, input_byte s, input_bits_available s)"

definition wr :: "decode_state \<Rightarrow> u8 \<times> nat \<times> ostream" where
  "wr s = (output_byte s, output_bits_filled s, ds_out s)"

definition ceil_div :: "nat \<Rightarrow> nat \<Rightarrow> nat" where
  "ceil_div a b = (a + b - 1) div b"

section \<open>Evaluation of 64-bit reduction\<close>

lemma low_bits_eq_mod: "low_bits n x = x mod 2 ^ n"
proof (induction n arbitrary: x)
  case 0
  show ?case by simp
next
  case (Suc n)
  have "x mod 2 ^ Suc n = x mod 2 + 2 * (x div 2 mod 2 ^ n)"
    by (simp add: mod_mult2_eq)
  with Suc show ?case by simp
qed

lemma u64_code [code]: "u64 x = low_bits 64 x"
  by (simp only: u64_def low_bits_eq_mod)

section \<open>Block-level lemmas\<close>

lemma test_bit_and_iff: "(w AND 2 ^ i \<noteq> 0) = bit w i" for w :: u32
  using bit_iff_and_push_bit_not_eq_0 [of w i] by simp

lemma test_bit_drop_iff: "(drop_bit i w AND 1 \<noteq> 0) = bit w i" for w :: u32
  by (simp add: and_one_eq bit_iff_odd_drop_bit odd_iff_mod_2_eq_one)

lemma nat_and_exp_iff: "((q::nat) AND 2 ^ j \<noteq> 0) = bit q j"
  using bit_iff_and_push_bit_not_eq_0 [of q j] by simp

lemma nat_and_exp_eq_0_iff: "((q::nat) AND 2 ^ j = 0) = (\<not> bit q j)"
  using nat_and_exp_iff [of q j] by blast

lemma nat_and_exp_pos_iff: "(0 < (q::nat) AND 2 ^ j) = bit q j"
  using nat_and_exp_iff [of q j] by simp

lemma bit_unit_iff: "bit (2 ^ i :: u32) t \<longleftrightarrow> t = i \<and> i < 32"
  by (auto simp: bit_simps)

lemma parity_step_eq: "parity_step c pp q v = (v \<noteq> covered c pp q)"
  by (simp add: parity_step_def covered_def test_bit_and_iff)

lemma parity_fold_Nil: "parity_fold c pp [] = False"
  by (simp add: parity_fold_def)

lemma parity_fold_snoc: "parity_fold c pp (qs @ [q]) = (parity_fold c pp qs \<noteq> covered c pp q)"
  unfolding parity_fold_def by (simp only: fold_append fold_simps o_apply id_apply parity_step_eq)

lemma parity_value_of_fold: "parity_value_of c n pp = parity_fold c pp [1..<Suc n]"
  by (simp add: parity_value_of_def parity_fold_def)

lemma parity_fold_xor:
  "parity_fold (a XOR b) pp qs = (parity_fold a pp qs \<noteq> parity_fold b pp qs)"
  by (induction qs rule: rev_induct)
     (auto simp: parity_fold_Nil parity_fold_snoc covered_def bit_xor_iff)

lemma parity_fold_cong:
  "(\<And>q. q \<in> set qs \<Longrightarrow> q AND pp \<noteq> 0 \<Longrightarrow> bit a (q - 1) = bit b (q - 1)) \<Longrightarrow>
   parity_fold a pp qs = parity_fold b pp qs"
  by (induction qs rule: rev_induct)
     (auto simp: parity_fold_Nil parity_fold_snoc covered_def)

lemma covered_unit:
  assumes "0 < p" "p \<le> 32" "0 < q"
  shows "covered (2 ^ (p - 1)) pp q = (q = p \<and> p AND pp \<noteq> 0)"
proof -
  from assms have "q - 1 = p - 1 \<longleftrightarrow> q = p" by auto
  moreover from assms have "p - 1 < 32" by simp
  ultimately show ?thesis
    unfolding covered_def bit_unit_iff by blast
qed

lemma parity_fold_unit:
  "distinct qs \<Longrightarrow> 0 \<notin> set qs \<Longrightarrow> 0 < p \<Longrightarrow> p \<le> 32 \<Longrightarrow>
   parity_fold (2 ^ (p - 1)) pp qs = (p \<in> set qs \<and> p AND pp \<noteq> 0)"
proof (induction qs rule: rev_induct)
  case Nil
  show ?case by (simp add: parity_fold_Nil)
next
  case (snoc q qs)
  then have "0 < q" by auto
  with snoc.prems have c: "covered (2 ^ (p - 1)) pp q = (q = p \<and> p AND pp \<noteq> 0)"
    by (intro covered_unit) auto
  from snoc have ih: "parity_fold (2 ^ (p - 1)) pp qs = (p \<in> set qs \<and> p AND pp \<noteq> 0)"
    by simp
  from snoc.prems have "q \<notin> set qs" by simp
  then show ?case
    unfolding parity_fold_snoc c ih by auto
qed

lemma parity_value_of_xor:
  "parity_value_of (a XOR b) n pp = (parity_value_of a n pp \<noteq> parity_value_of b n pp)"
  unfolding parity_value_of_fold by (rule parity_fold_xor)

lemma parity_value_of_unit:
  "t < n \<Longrightarrow> n \<le> 32 \<Longrightarrow> parity_value_of (2 ^ t) n pp = (Suc t AND pp \<noteq> 0)"
  unfolding parity_value_of_fold using parity_fold_unit [of "[1..<Suc n]" "Suc t" pp] by auto

lemma parity_value_of_cong:
  "(\<And>q. 0 < q \<Longrightarrow> q \<le> n \<Longrightarrow> q AND pp \<noteq> 0 \<Longrightarrow> bit a (q - 1) = bit b (q - 1)) \<Longrightarrow>
   parity_value_of a n pp = parity_value_of b n pp"
  unfolding parity_value_of_fold by (rule parity_fold_cong) auto

text \<open>powers of two\<close>

lemma is_parity_position_exp: "is_parity_position (2 ^ j)"
  unfolding is_parity_position_def
  by (metis and.commute mask_eq_exp_minus_1 and_exp_eq_0_iff_not_bit bit_mask_iff less_irrefl)

lemma is_parity_position_imp_exp:
  "is_parity_position p \<Longrightarrow> 0 < p \<Longrightarrow> \<exists>j. p = 2 ^ j"
proof (induction p rule: less_induct)
  case (less p)
  show ?case
  proof (cases "p = 1")
    case True
    then show ?thesis by (intro exI [of _ 0]) simp
  next
    case False
    with less.prems have p2: "2 \<le> p" by simp
    show ?thesis
    proof (cases "even p")
      case True
      then obtain m where m: "p = 2 * m" by (elim evenE)
      with p2 have m0: "0 < m" by simp
      have "p - 1 = 2 * (m - 1) + 1" using m m0 by simp
      then have "p AND (p - 1) = 2 * (m AND (m - 1))"
        using m by (simp add: and_nat_rec [of "2 * m"])
      with less.prems have "is_parity_position m"
        by (simp add: is_parity_position_def)
      with less.IH [of m] m m0 obtain j where "m = 2 ^ j" by auto
      with m show ?thesis by (intro exI [of _ "Suc j"]) simp
    next
      case False
      then obtain m where m: "p = 2 * m + 1" by (elim oddE)
      with p2 have m0: "0 < m" by simp
      have "p AND (p - 1) = 2 * m"
        using m by (simp add: and_nat_rec [of "Suc (2 * m)"])
      with less.prems m0 show ?thesis by (simp add: is_parity_position_def)
    qed
  qed
qed


lemma syndrome_loop_bit:
  "pp = 2 ^ j \<Longrightarrow>
   bit (syndrome_loop c n pp s) i \<longleftrightarrow>
     bit s i \<or> (j \<le> i \<and> 2 ^ i \<le> n \<and> parity_value_of c n (2 ^ i))"
proof (induction c n pp s arbitrary: j rule: syndrome_loop.induct)
  case (1 c n pp s)
  show ?case
  proof (cases "pp \<le> n")
    case True
    let ?s' = "if parity_value_of c n pp then s OR pp else s"
    have pp': "push_bit 1 pp = 2 ^ Suc j" using "1.prems" by simp
    have s': "bit ?s' i \<longleftrightarrow> bit s i \<or> (i = j \<and> parity_value_of c n (2 ^ j))"
      using "1.prems" by (auto simp: bit_or_iff bit_exp_iff)
    have "bit (syndrome_loop c n pp s) i = bit (syndrome_loop c n (push_bit 1 pp) ?s') i"
      using True "1.prems" by (subst syndrome_loop.simps) simp
    also have "\<dots> \<longleftrightarrow> bit ?s' i \<or> (Suc j \<le> i \<and> 2 ^ i \<le> n \<and> parity_value_of c n (2 ^ i))"
      using True "1.prems" by (intro "1.IH" [OF _ pp']) simp
    also have "\<dots> \<longleftrightarrow> bit s i \<or> (j \<le> i \<and> 2 ^ i \<le> n \<and> parity_value_of c n (2 ^ i))"
      unfolding s' using True "1.prems" by (cases "i = j") auto
    finally show ?thesis .
  next
    case False
    then have "syndrome_loop c n pp s = s"
      by (subst syndrome_loop.simps) simp
    moreover have "\<not> (j \<le> i \<and> (2::nat) ^ i \<le> n)"
    proof
      assume a: "j \<le> i \<and> (2::nat) ^ i \<le> n"
      then have "(2::nat) ^ j \<le> 2 ^ i" by (intro power_increasing) auto
      with a False "1.prems" show False by simp
    qed
    ultimately show ?thesis by auto
  qed
qed

lemma CalculateSyndrome_bit:
  "bit (CalculateSyndrome c n) i \<longleftrightarrow> 2 ^ i \<le> n \<and> parity_value_of c n (2 ^ i)"
  unfolding CalculateSyndrome_def
  using syndrome_loop_bit [of 1 0 c n 0 i] by simp

lemma CalculateSyndrome_zero_iff:
  "CalculateSyndrome c n = 0 \<longleftrightarrow> (\<forall>i. 2 ^ i \<le> n \<longrightarrow> \<not> parity_value_of c n (2 ^ i))"
  by (auto simp: bit_eq_iff CalculateSyndrome_bit)

lemma bit_imp_exp_le: "bit (p::nat) i \<Longrightarrow> 2 ^ i \<le> p"
  by (rule ccontr) (simp add: bit_iff_odd not_le)

lemma CalculateSyndrome_flip:
  assumes "n \<le> 32" "t < n" "CalculateSyndrome c n = 0"
  shows "CalculateSyndrome (c XOR 2 ^ t) n = Suc t"
proof (rule bit_eqI)
  fix i
  from assms(3) have z: "2 ^ i \<le> n \<Longrightarrow> \<not> parity_value_of c n (2 ^ i)"
    by (simp add: CalculateSyndrome_zero_iff)
  have "bit (CalculateSyndrome (c XOR 2 ^ t) n) i \<longleftrightarrow> 2 ^ i \<le> n \<and> bit (Suc t) i"
    using assms z by (auto simp: CalculateSyndrome_bit parity_value_of_xor parity_value_of_unit nat_and_exp_eq_0_iff nat_and_exp_pos_iff)
  also have "\<dots> \<longleftrightarrow> bit (Suc t) i"
    using bit_imp_exp_le [of "Suc t" i] assms(2) by auto
  finally show "bit (CalculateSyndrome (c XOR 2 ^ t) n) i = bit (Suc t) i" .
qed

lemma or_unit_eq_xor: "\<not> bit c t \<Longrightarrow> c OR 2 ^ t = c XOR 2 ^ t" for c :: u32
  by (rule bit_eqI) (auto simp: bit_or_iff bit_xor_iff bit_unit_iff)

lemma bit_exp_minus_1_ne:
  "(2::nat) ^ i - 1 = 2 ^ j - 1 \<longleftrightarrow> i = j"
proof
  assume "(2::nat) ^ i - 1 = 2 ^ j - 1"
  then have "Suc ((2::nat) ^ i - 1) = Suc (2 ^ j - 1)" by simp
  then have "(2::nat) ^ i = 2 ^ j" by simp
  then show "i = j" by simp
qed simp

lemma encode_parity_loop_frame:
  "pp = 2 ^ j \<Longrightarrow>
   bit (encode_parity_loop n pp c) t \<noteq> bit c t \<Longrightarrow>
   \<exists>i\<ge>j. 2 ^ i \<le> n \<and> t = 2 ^ i - 1"
proof (induction n pp c arbitrary: j rule: encode_parity_loop.induct)
  case (1 n pp c)
  show ?case
  proof (cases "pp \<le> n")
    case True
    let ?c' = "if parity_value_of c n pp then c OR push_bit (pp - 1) 1 else c"
    have pp': "push_bit 1 pp = 2 ^ Suc j" using "1.prems" by simp
    have unf: "encode_parity_loop n pp c = encode_parity_loop n (push_bit 1 pp) ?c'"
      using True "1.prems" by (subst encode_parity_loop.simps) simp
    show ?thesis
    proof (cases "bit (encode_parity_loop n (push_bit 1 pp) ?c') t = bit ?c' t")
      case False
      with "1.IH" [OF _ pp'] True "1.prems"(1)
      obtain i where "Suc j \<le> i" "2 ^ i \<le> n" "t = 2 ^ i - 1" by auto
      then show ?thesis by (intro exI [of _ i]) simp
    next
      case same: True
      with "1.prems"(2) unf have "bit ?c' t \<noteq> bit c t" by simp
      then have "t = 2 ^ j - 1"
        using "1.prems"(1) by (auto simp: bit_or_iff bit_unit_iff split: if_splits)
      with True "1.prems"(1) show ?thesis by (intro exI [of _ j]) simp
    qed
  next
    case False
    then have "encode_parity_loop n pp c = c"
      by (subst encode_parity_loop.simps) simp
    with "1.prems" show ?thesis by simp
  qed
qed

lemma encode_parity_loop_mono:
  "bit c t \<Longrightarrow> bit (encode_parity_loop n pp c) t"
proof (induction n pp c rule: encode_parity_loop.induct)
  case (1 n pp c)
  show ?case
  proof (cases "0 < pp \<and> pp \<le> n")
    case True
    let ?c' = "if parity_value_of c n pp then c OR push_bit (pp - 1) 1 else c"
    have "bit ?c' t" using "1.prems" by (simp add: bit_or_iff)
    with "1.IH" True have "bit (encode_parity_loop n (push_bit 1 pp) ?c') t" by simp
    then show ?thesis using True by (subst encode_parity_loop.simps) simp
  next
    case False
    then have "encode_parity_loop n pp c = c"
      by (subst encode_parity_loop.simps, simp only: if_False)
    with "1.prems" show ?thesis by simp
  qed
qed

lemma exp_and_exp_nat: "i \<noteq> j \<Longrightarrow> (2::nat) ^ i AND 2 ^ j = 0"
  by (simp add: nat_and_exp_eq_0_iff bit_exp_iff)

lemma encode_parity_loop_zero:
  "pp = 2 ^ j \<Longrightarrow> n \<le> 32 \<Longrightarrow>
   (\<And>i. j \<le> i \<Longrightarrow> 2 ^ i \<le> n \<Longrightarrow> \<not> bit c (2 ^ i - 1)) \<Longrightarrow>
   j \<le> i \<Longrightarrow> 2 ^ i \<le> n \<Longrightarrow>
   \<not> parity_value_of (encode_parity_loop n pp c) n (2 ^ i)"
proof (induction n pp c arbitrary: j rule: encode_parity_loop.induct)
  case (1 n pp c)
  have le: "pp \<le> n"
  proof -
    have "(2::nat) ^ j \<le> 2 ^ i" using "1.prems"(4) by (intro power_increasing) auto
    also have "\<dots> \<le> n" by (rule "1.prems"(5))
    finally show ?thesis using "1.prems"(1) by simp
  qed
  let ?u = "push_bit (pp - 1) 1 :: u32"
  let ?c' = "if parity_value_of c n pp then c OR ?u else c"
  let ?res = "encode_parity_loop n (push_bit 1 pp) ?c'"
  have u: "?u = 2 ^ (pp - 1)" by simp
  have pp': "push_bit 1 pp = 2 ^ Suc j" using "1.prems" by simp
  have unf: "encode_parity_loop n pp c = ?res"
    using le "1.prems"(1) by (subst encode_parity_loop.simps) simp
  have clear_j: "\<not> bit c (pp - 1)"
    using "1.prems"(3) [of j] le "1.prems"(1) by simp
  have "0 < pp" using "1.prems"(1) by simp
  with le have ppn: "pp - 1 < n" by simp
  have par_c': "\<not> parity_value_of ?c' n pp"
  proof (cases "parity_value_of c n pp")
    case True
    have "Suc (pp - 1) = pp" using "1.prems"(1) by simp
    then have "parity_value_of ?u n pp"
      unfolding u using parity_value_of_unit [OF ppn "1.prems"(2), of pp] by simp
    moreover have "parity_value_of (c OR ?u) n pp = (parity_value_of c n pp \<noteq> parity_value_of ?u n pp)"
      unfolding u or_unit_eq_xor [OF clear_j] by (rule parity_value_of_xor)
    ultimately show ?thesis using True by simp
  next
    case False
    then show ?thesis by simp
  qed
  have clear': "\<not> bit ?c' (2 ^ i' - 1)" if "Suc j \<le> i'" "2 ^ i' \<le> n" for i'
  proof -
    from that have "\<not> bit c (2 ^ i' - 1)" by (intro "1.prems"(3)) auto
    moreover have "(2::nat) ^ i' - 1 \<noteq> pp - 1"
      using that "1.prems"(1) bit_exp_minus_1_ne [of i' j] by simp
    ultimately show ?thesis by (simp add: bit_or_iff bit_unit_iff)
  qed
  show ?case
  proof (cases "i = j")
    case False
    with "1.prems"(4) have "Suc j \<le> i" by simp
    then have "\<not> parity_value_of ?res n (2 ^ i)"
      using le "1.prems"(1,2,5) clear' by (intro "1.IH" [OF _ pp']) auto
    with unf show ?thesis by simp
  next
    case True
    have "parity_value_of ?res n pp = parity_value_of ?c' n pp"
    proof (rule parity_value_of_cong)
      fix q assume q: "0 < q" "q \<le> n" "q AND pp \<noteq> 0"
      show "bit ?res (q - 1) = bit ?c' (q - 1)"
      proof (rule ccontr)
        assume "bit ?res (q - 1) \<noteq> bit ?c' (q - 1)"
        from encode_parity_loop_frame [OF pp' this]
        obtain i' where i': "Suc j \<le> i'" "q - 1 = 2 ^ i' - 1" by auto
        then have "Suc (q - 1) = Suc (2 ^ i' - 1)" by simp
        with q(1) have "q = 2 ^ i'" by simp
        with i'(1) "1.prems"(1) have "q AND pp = 0"
          by (simp add: exp_and_exp_nat)
        with q(3) show False by simp
      qed
    qed
    with par_c' unf True "1.prems"(1) show ?thesis by simp
  qed
qed

lemma data_index_at_Suc:
  "0 < p \<Longrightarrow> data_index_at (Suc p) =
     (if is_parity_position p then data_index_at p else Suc (data_index_at p))"
  by (simp add: data_index_at_def)

lemma data_index_at_1: "data_index_at (Suc 0) = 0"
  by (simp add: data_index_at_def)

lemma data_index_at_mono: "p \<le> q \<Longrightarrow> data_index_at p \<le> data_index_at q"
proof (induction q)
  case 0
  then show ?case by simp
next
  case (Suc q)
  show ?case
  proof (cases "p = Suc q")
    case True
    then show ?thesis by simp
  next
    case False
    with Suc have ih: "data_index_at p \<le> data_index_at q" by simp
    show ?thesis
    proof (cases "q = 0")
      case True
      with ih show ?thesis by (simp add: data_index_at_def)
    next
      case False
      with ih show ?thesis by (simp add: data_index_at_Suc)
    qed
  qed
qed

lemma data_index_at_less:
  assumes "0 < p" "p \<le> n" "\<not> is_parity_position p"
  shows "data_index_at p < data_index_at (Suc n)"
proof -
  have "data_index_at (Suc p) \<le> data_index_at (Suc n)"
    using assms(2) by (intro data_index_at_mono) simp
  with assms show ?thesis by (simp add: data_index_at_Suc)
qed

lemma data_index_at_surj:
  "t < data_index_at (Suc n) \<Longrightarrow>
   \<exists>p. 0 < p \<and> p \<le> n \<and> \<not> is_parity_position p \<and> data_index_at p = t"
proof (induction n)
  case 0
  then show ?case by (simp add: data_index_at_1)
next
  case (Suc n)
  show ?case
  proof (cases "t < data_index_at (Suc n)")
    case True
    with Suc.IH obtain p where "0 < p" "p \<le> n" "\<not> is_parity_position p" "data_index_at p = t"
      by auto
    then show ?thesis by (intro exI [of _ p]) simp
  next
    case False
    with Suc.prems have "\<not> is_parity_position (Suc n) \<and> data_index_at (Suc n) = t"
      by (auto simp: data_index_at_Suc split: if_splits)
    then show ?thesis by (intro exI [of _ "Suc n"]) simp
  qed
qed

lemma place_step_eq:
  "place_step d p (cw, di) =
     (if is_parity_position p then (cw, di)
      else (if bit d di then cw OR 2 ^ (p - 1) else cw, Suc di))"
  by (simp add: place_step_def test_bit_drop_iff)

lemma extract_step_eq:
  "extract_step c p (dv, di) =
     (if is_parity_position p then (dv, di)
      else (if bit c (p - 1) then dv OR 2 ^ di else dv, Suc di))"
  by (simp add: extract_step_def test_bit_drop_iff)

lemma place_fold:
  "\<exists>cw. fold (place_step d) [1..<Suc n] (0, 0) = (cw, data_index_at (Suc n)) \<and>
     (\<forall>t. bit cw t \<longleftrightarrow>
        t < n \<and> t < 32 \<and> \<not> is_parity_position (Suc t) \<and> bit d (data_index_at (Suc t)))"
proof (induction n)
  case 0
  show ?case by (simp add: data_index_at_1)
next
  case (Suc n)
  then obtain cw where
    f: "fold (place_step d) [1..<Suc n] (0, 0) = (cw, data_index_at (Suc n))" and
    b: "\<And>t. bit cw t \<longleftrightarrow>
        t < n \<and> t < 32 \<and> \<not> is_parity_position (Suc t) \<and> bit d (data_index_at (Suc t))"
    by blast
  have step: "fold (place_step d) [1..<Suc (Suc n)] (0, 0) =
      place_step d (Suc n) (cw, data_index_at (Suc n))"
    using f by simp
  have d2: "data_index_at (Suc (Suc n)) =
      (if is_parity_position (Suc n) then data_index_at (Suc n) else Suc (data_index_at (Suc n)))"
    by (rule data_index_at_Suc) simp
  show ?case
    unfolding step place_step_eq d2
    by (auto simp: b bit_or_iff bit_unit_iff less_Suc_eq)
qed

lemma extract_fold:
  "\<exists>dv. fold (extract_step c) [1..<Suc n] (0, 0) = (dv, data_index_at (Suc n)) \<and>
     (\<forall>t. bit dv t \<longleftrightarrow>
        t < 32 \<and> (\<exists>p. 0 < p \<and> p \<le> n \<and> \<not> is_parity_position p \<and>
                     data_index_at p = t \<and> bit c (p - 1)))"
proof (induction n)
  case 0
  show ?case by (simp add: data_index_at_1)
next
  case (Suc n)
  then obtain dv where
    f: "fold (extract_step c) [1..<Suc n] (0, 0) = (dv, data_index_at (Suc n))" and
    b: "\<And>t. bit dv t \<longleftrightarrow>
        t < 32 \<and> (\<exists>p. 0 < p \<and> p \<le> n \<and> \<not> is_parity_position p \<and>
                     data_index_at p = t \<and> bit c (p - 1))"
    by blast
  have step: "fold (extract_step c) [1..<Suc (Suc n)] (0, 0) =
      extract_step c (Suc n) (dv, data_index_at (Suc n))"
    using f by simp
  have ex: "(\<exists>p. 0 < p \<and> p \<le> Suc n \<and> P p) \<longleftrightarrow> (\<exists>p. 0 < p \<and> p \<le> n \<and> P p) \<or> P (Suc n)" for P
    by (auto simp: le_Suc_eq)
  have d2: "data_index_at (Suc (Suc n)) =
      (if is_parity_position (Suc n) then data_index_at (Suc n) else Suc (data_index_at (Suc n)))"
    by (rule data_index_at_Suc) simp
  show ?case
    unfolding step extract_step_eq ex d2
    by (auto simp: b bit_or_iff bit_unit_iff)
qed

lemma bit_placed:
  "bit (placed n d) t \<longleftrightarrow>
     t < n \<and> t < 32 \<and> \<not> is_parity_position (Suc t) \<and> bit d (data_index_at (Suc t))"
proof -
  from place_fold [of d n] obtain cw where
    f: "fold (place_step d) [1..<Suc n] (0, 0) = (cw, data_index_at (Suc n))" and
    b: "\<And>t. bit cw t \<longleftrightarrow>
        t < n \<and> t < 32 \<and> \<not> is_parity_position (Suc t) \<and> bit d (data_index_at (Suc t))"
    by blast
  have "placed n d = cw" unfolding placed_def f by simp
  then show ?thesis by (simp only: b)
qed

lemma EncodeBlock_placed:
  "EncodeBlock opts d = encode_parity_loop (total_bits opts) 1 (placed (total_bits opts) d)"
  by (simp add: EncodeBlock_def placed_def)

lemma placed_parity_clear: "\<not> bit (placed n d) (2 ^ i - 1)"
proof -
  have "Suc (2 ^ i - 1) = 2 ^ i" by simp
  then show ?thesis
    unfolding bit_placed using is_parity_position_exp [of i] by simp
qed

lemma bit_EncodeBlock_data:
  assumes "\<not> is_parity_position (Suc t)"
  shows "bit (EncodeBlock opts d) t \<longleftrightarrow>
     t < total_bits opts \<and> t < 32 \<and> bit d (data_index_at (Suc t))"
proof -
  have "bit (EncodeBlock opts d) t = bit (placed (total_bits opts) d) t"
  proof (rule ccontr)
    assume "bit (EncodeBlock opts d) t \<noteq> bit (placed (total_bits opts) d) t"
    then have "\<exists>i\<ge>0. 2 ^ i \<le> total_bits opts \<and> t = 2 ^ i - 1"
      unfolding EncodeBlock_placed
      by (intro encode_parity_loop_frame [where pp = 1]) simp_all
    then obtain i where "t = 2 ^ i - 1" by blast
    then have "Suc t = 2 ^ i" by simp
    with assms is_parity_position_exp [of i] show False by simp
  qed
  with assms show ?thesis by (simp add: bit_placed)
qed

lemma bit_EncodeBlock_less:
  assumes "bit (EncodeBlock opts d) t"
  shows "t < total_bits opts"
proof (cases "bit (placed (total_bits opts) d) t")
  case True
  then show ?thesis by (simp add: bit_placed)
next
  case False
  with assms have "bit (encode_parity_loop (total_bits opts) 1 (placed (total_bits opts) d)) t
      \<noteq> bit (placed (total_bits opts) d) t"
    unfolding EncodeBlock_placed by simp
  then have "\<exists>i\<ge>0. 2 ^ i \<le> total_bits opts \<and> t = 2 ^ i - 1"
    by (intro encode_parity_loop_frame [where pp = 1]) simp_all
  then obtain i where "2 ^ i \<le> total_bits opts" "t = 2 ^ i - 1" by blast
  moreover have "0 < (2::nat) ^ i" by simp
  ultimately show ?thesis by linarith
qed


lemma CalculateSyndrome_EncodeBlock:
  assumes "total_bits opts \<le> 32"
  shows "CalculateSyndrome (EncodeBlock opts d) (total_bits opts) = 0"
  unfolding CalculateSyndrome_zero_iff EncodeBlock_placed
proof (intro allI impI)
  fix i assume "2 ^ i \<le> total_bits opts"
  then show "\<not> parity_value_of (encode_parity_loop (total_bits opts) 1 (placed (total_bits opts) d))
      (total_bits opts) (2 ^ i)"
    using assms placed_parity_clear
    by (intro encode_parity_loop_zero [where j = 0]) auto
qed

lemma bit_ExtractDataBits:
  "bit (ExtractDataBits c n) t \<longleftrightarrow>
     t < 32 \<and> (\<exists>p. 0 < p \<and> p \<le> n \<and> \<not> is_parity_position p \<and>
                  data_index_at p = t \<and> bit c (p - 1))"
proof -
  from extract_fold [of c n] obtain dv where
    f: "fold (extract_step c) [1..<Suc n] (0, 0) = (dv, data_index_at (Suc n))" and
    b: "\<And>t. bit dv t \<longleftrightarrow>
        t < 32 \<and> (\<exists>p. 0 < p \<and> p \<le> n \<and> \<not> is_parity_position p \<and>
                     data_index_at p = t \<and> bit c (p - 1))"
    by blast
  have "ExtractDataBits c n = dv" unfolding ExtractDataBits_def f by simp
  then show ?thesis by (simp only: b)
qed

lemma ExtractDataBits_EncodeBlock:
  assumes "total_bits opts \<le> 32"
  shows "ExtractDataBits (EncodeBlock opts d) (total_bits opts) =
         take_bit (data_index_at (Suc (total_bits opts))) d"
proof (rule bit_eqI)
  fix t
  let ?n = "total_bits opts"
  have enc: "bit (EncodeBlock opts d) (p - 1) \<longleftrightarrow> bit d (data_index_at p)"
    if "0 < p" "p \<le> ?n" "\<not> is_parity_position p" for p
  proof -
    from that have "Suc (p - 1) = p" by simp
    with that assms show ?thesis
      using bit_EncodeBlock_data [of "p - 1" opts d] by auto
  qed
  have "bit (ExtractDataBits (EncodeBlock opts d) ?n) t \<longleftrightarrow>
      t < 32 \<and> (\<exists>p. 0 < p \<and> p \<le> ?n \<and> \<not> is_parity_position p \<and> data_index_at p = t) \<and> bit d t"
    unfolding bit_ExtractDataBits using enc by auto
  also have "(\<exists>p. 0 < p \<and> p \<le> ?n \<and> \<not> is_parity_position p \<and> data_index_at p = t) \<longleftrightarrow>
      t < data_index_at (Suc ?n)"
    using data_index_at_surj [of t ?n] data_index_at_less [of _ ?n] by auto
  finally show "bit (ExtractDataBits (EncodeBlock opts d) ?n) t =
      bit (take_bit (data_index_at (Suc ?n)) d) t"
    by (auto simp: bit_take_bit_iff dest: bit_imp_le_length)
qed

lemma DecodeBlock_EncodeBlock:
  assumes "total_bits opts \<le> 32"
  shows "DecodeBlock opts (EncodeBlock opts d) =
         (take_bit (data_index_at (Suc (total_bits opts))) d, False)"
  by (simp add: DecodeBlock_def CalculateSyndrome_EncodeBlock [OF assms]
      ExtractDataBits_EncodeBlock [OF assms])

lemma DecodeBlock_flip:
  assumes "total_bits opts \<le> 32" "i < total_bits opts"
  shows "DecodeBlock opts (EncodeBlock opts d XOR push_bit i 1) =
         (take_bit (data_index_at (Suc (total_bits opts))) d, False)"
proof -
  let ?c = "EncodeBlock opts d"
  have u: "push_bit i 1 = (2 ^ i :: u32)" by simp
  have s: "CalculateSyndrome (?c XOR 2 ^ i) (total_bits opts) = Suc i"
    using assms by (intro CalculateSyndrome_flip CalculateSyndrome_EncodeBlock)
  have undo: "(?c XOR 2 ^ i) XOR push_bit (Suc i - 1) 1 = ?c"
    by (simp add: xor.assoc)
  show ?thesis
    unfolding DecodeBlock_def u s Let_def undo
    using assms
    by (simp add: CalculateSyndrome_EncodeBlock ExtractDataBits_EncodeBlock)
qed


lemma parity_positions_le:
  assumes "n < 2 ^ r"
  shows "length (filter is_parity_position [1..<Suc n]) \<le> r"
proof -
  let ?ps = "filter is_parity_position [1..<Suc n]"
  have "set ?ps \<subseteq> (\<lambda>j. 2 ^ j) ` {..<r}"
  proof
    fix p assume "p \<in> set ?ps"
    then have p: "0 < p" "p \<le> n" "is_parity_position p" by auto
    then obtain j where j: "p = 2 ^ j" using is_parity_position_imp_exp by blast
    with p(2) assms have "(2::nat) ^ j < 2 ^ r" by linarith
    then have "j < r" by (simp only: power_strict_increasing_iff rel_simps)
    with j show "p \<in> (\<lambda>j. 2 ^ j) ` {..<r}" by blast
  qed
  then have "card (set ?ps) \<le> card ((\<lambda>j. (2::nat) ^ j) ` {..<r})"
    by (intro card_mono) auto
  also have "\<dots> \<le> card {..<r}" by (rule card_image_le) simp
  finally have "card (set ?ps) \<le> r" by simp
  moreover have "distinct ?ps" by (rule distinct_filter) (rule distinct_upt)
  ultimately show ?thesis by (simp only: distinct_card)
qed

lemma data_positions_eq: "data_positions n = data_index_at (Suc n)"
  by (simp add: data_positions_def data_index_at_def)

lemma data_positions_ge:
  assumes "k + r < 2 ^ r"
  shows "k \<le> data_positions (k + r)"
proof -
  have "length (filter is_parity_position [1..<Suc (k + r)]) + data_positions (k + r) = k + r"
    unfolding data_positions_def
    using sum_length_filter_compl [of is_parity_position "[1..<Suc (k + r)]"]
    by (simp del: upt_Suc)
  with parity_positions_le [OF assms] show ?thesis by linarith
qed

lemma placed_take_bit: "placed n (take_bit (data_positions n) d) = placed n d"
proof (rule bit_eqI)
  fix t
  have "data_index_at (Suc t) < data_positions n"
    if "t < n" "\<not> is_parity_position (Suc t)"
    unfolding data_positions_eq using that by (intro data_index_at_less) auto
  then show "bit (placed n (take_bit (data_positions n) d)) t = bit (placed n d) t"
    by (auto simp: bit_placed bit_take_bit_iff)
qed

lemma unat_less_exp_if_bits:
  fixes w :: u32
  assumes "\<And>t. bit w t \<Longrightarrow> t < n"
  shows "unat w < 2 ^ n"
proof -
  have "take_bit n w = w"
    by (rule bit_eqI) (use assms in \<open>auto simp: bit_take_bit_iff\<close>)
  then have "unat w = take_bit n (unat w)"
    by (metis unsigned_take_bit_eq)
  then show ?thesis
    by (metis take_bit_nat_less_exp)
qed

lemma take_bit_word_self:
  fixes d :: u32
  assumes "unat d < 2 ^ k" "k \<le> m"
  shows "take_bit m d = d"
proof -
  have "(2::nat) ^ k \<le> 2 ^ m" using assms(2) by (intro power_increasing) auto
  with assms(1) have "unat d < 2 ^ m" by linarith
  then have "unat (take_bit m d) = unat d"
    by (simp add: unsigned_take_bit_eq take_bit_nat_eq_self)
  then show ?thesis by (rule unsigned_word_eqI)
qed

section \<open>Lemmas about the bit writer and the encoder\<close>

lemma bit_unit8_iff: "bit (2 ^ i :: u8) t \<longleftrightarrow> t = i \<and> i < 8"
  by (auto simp: bit_simps)

lemma test_bit_drop_iff': "(drop_bit i w AND 1 \<noteq> 0) = bit w i" for w :: "'a::len word"
  by (simp add: and_one_eq bit_iff_odd_drop_bit odd_iff_mod_2_eq_one)

lemma bits_of_bytes_Nil: "bits_of_bytes [] = []"
  by (simp add: bits_of_bytes_def)

lemma bits_of_bytes_append: "bits_of_bytes (xs @ ys) = bits_of_bytes xs @ bits_of_bytes ys"
  by (simp add: bits_of_bytes_def)

lemma bits_of_bytes_Cons: "bits_of_bytes (x # xs) = bits_of_byte x @ bits_of_bytes xs"
  by (simp add: bits_of_bytes_def)

lemma length_bits_of_byte: "length (bits_of_byte b) = 8"
  by (simp add: bits_of_byte_def)

lemma length_bits_of_bytes: "length (bits_of_bytes bs) = 8 * length bs"
  by (induction bs) (simp_all add: bits_of_bytes_Nil bits_of_bytes_Cons length_bits_of_byte)

lemma map_bit_upt_Suc: "map f [0..<Suc n] = map f [0..<n] @ [f n]"
  by simp

lemma WriteDecodedBitToStream_ok:
  assumes "writer_ok st"
  shows "\<exists>st'. WriteDecodedBitToStream b st = (True, st') \<and> writer_ok st' \<and>
               writer_bits st' = writer_bits st @ [b]"
proof -
  obtain ob cnt out where st: "st = (ob, cnt, out)" by (cases st) auto
  from assms st have cnt: "cnt < 8" and ob: "take_bit cnt ob = ob"
    and out: "\<not> obad out" "oroom out = None"
    by (auto simp: writer_ok_def)
  define ob' where "ob' = (if b then ob OR push_bit cnt 1 else ob)"
  have W: "WriteDecodedBitToStream b st =
      (if Suc cnt \<noteq> 8 then (True, (ob', Suc cnt, out))
       else if \<not> ogood (put ob' out) then (False, (ob', Suc cnt, put ob' out))
       else (True, (0, 0, put ob' out)))"
    unfolding WriteDecodedBitToStream_def st ob'_def by (simp add: Let_def)
  have hi: "\<not> bit ob i" if "cnt \<le> i" for i
  proof -
    have "bit ob i = bit (take_bit cnt ob) i" by (simp add: ob)
    with that show ?thesis by (simp add: bit_take_bit_iff)
  qed
  have bits': "bit ob' i \<longleftrightarrow> (if i = cnt then b else bit ob i)" for i
    unfolding ob'_def using cnt hi [of cnt] by (auto simp: bit_or_iff bit_unit8_iff)
  have tb: "take_bit (Suc cnt) ob' = ob'"
  proof (rule bit_eqI)
    fix i
    show "bit (take_bit (Suc cnt) ob') i = bit ob' i"
    proof (cases "i \<le> cnt")
      case True
      then show ?thesis by (simp add: bit_take_bit_iff)
    next
      case False
      with hi [of i] show ?thesis by (simp add: bit_take_bit_iff bits')
    qed
  qed
  have m: "map (bit ob') [0..<Suc cnt] = map (bit ob) [0..<cnt] @ [b]"
    by (simp add: bits')
  show ?thesis
  proof (cases "Suc cnt = 8")
    case False
    with cnt have "Suc cnt < 8" by simp
    with False tb m out show ?thesis
      unfolding W by (simp add: writer_ok_def writer_bits_def st)
  next
    case True
    have p: "put ob' out = out\<lparr>obuf := obuf out @ [ob']\<rparr>"
      using out by (simp add: put_def write_bytes_def)
    have "bits_of_byte ob' = map (bit ob) [0..<cnt] @ [b]"
      unfolding bits_of_byte_def using m True by simp
    with True out show ?thesis
      unfolding W p
      by (simp add: writer_ok_def writer_bits_def ogood_def st
          bits_of_bytes_append bits_of_bytes_Cons bits_of_bytes_Nil)
  qed
qed

lemma write_word_bits_ok:
  "writer_ok st \<Longrightarrow>
   \<exists>st'. write_word_bits w is st = (True, st') \<and> writer_ok st' \<and>
         writer_bits st' = writer_bits st @ map (bit w) is"
proof (induction "is" arbitrary: st)
  case Nil
  then show ?case by simp
next
  case (Cons i "is")
  from WriteDecodedBitToStream_ok [OF Cons.prems, of "bit w i"]
  obtain st1 where s1: "WriteDecodedBitToStream (bit w i) st = (True, st1)" "writer_ok st1"
    "writer_bits st1 = writer_bits st @ [bit w i]" by blast
  from Cons.IH [OF s1(2)] obtain st2 where
    s2: "write_word_bits w is st1 = (True, st2)" "writer_ok st2"
    "writer_bits st2 = writer_bits st1 @ map (bit w) is" by blast
  show ?case
    using s1 s2 by (simp add: test_bit_drop_iff)
qed

lemma EncodeAndWriteBlock_ok:
  assumes "writer_ok st"
  shows "\<exists>st'. EncodeAndWriteBlock opts d st = (True, st') \<and> writer_ok st' \<and>
         writer_bits st' = writer_bits st @ word_bits (total_bits opts) (EncodeBlock opts d)"
  unfolding EncodeAndWriteBlock_def word_bits_def
  by (rule write_word_bits_ok [OF assms])

lemma enc_bits_Nil: "enc_bits opts [] = []"
  by (subst enc_bits.simps) simp

lemma enc_bits_block:
  assumes "0 < data_bits opts" "length pend = data_bits opts"
  shows "enc_bits opts (pend @ rest) =
         word_bits (total_bits opts) (EncodeBlock opts (word_of_bits pend)) @ enc_bits opts rest"
  using assms by (subst enc_bits.simps) auto

lemma enc_bits_last:
  assumes "0 < length pend" "length pend \<le> data_bits opts"
  shows "enc_bits opts pend = word_bits (total_bits opts) (EncodeBlock opts (word_of_bits pend))"
  using assms by (subst enc_bits.simps) (auto simp: enc_bits_Nil)

lemma word_of_bits_map_bit:
  "take_bit n w = w \<Longrightarrow> word_of_bits (map (bit w) [0..<n]) = w"
  by (simp add: word_of_bits_def horner_sum_bit_eq_take_bit)

lemma take_bit_Suc_or_unit:
  fixes db :: u32
  assumes "take_bit n db = db" "n < 32"
  shows "take_bit (Suc n) (if b then db OR push_bit n 1 else db) = (if b then db OR push_bit n 1 else db)"
    and "map (bit (if b then db OR push_bit n 1 else db)) [0..<Suc n] = map (bit db) [0..<n] @ [b]"
proof -
  let ?d = "if b then db OR push_bit n 1 else db"
  have hi: "\<not> bit db i" if "n \<le> i" for i
  proof -
    have "bit db i = bit (take_bit n db) i" by (simp add: assms)
    with that show ?thesis by (simp add: bit_take_bit_iff)
  qed
  have bits': "bit ?d i \<longleftrightarrow> (if i = n then b else bit db i)" for i
    using assms(2) hi [of n] by (auto simp: bit_or_iff bit_unit_iff)
  show "take_bit (Suc n) ?d = ?d"
  proof (rule bit_eqI)
    fix i
    show "bit (take_bit (Suc n) ?d) i = bit ?d i"
    proof (cases "i \<le> n")
      case True
      then show ?thesis by (simp add: bit_take_bit_iff)
    next
      case False
      with hi [of i] show ?thesis by (simp add: bit_take_bit_iff bits')
    qed
  qed
  show "map (bit ?d) [0..<Suc n] = map (bit db) [0..<n] @ [b]"
    by (simp add: bits')
qed

lemma encode_input_bits_ok:
  assumes "data_bits opts \<le> 32"
  shows "enc_ok opts st \<Longrightarrow>
   \<exists>st'. encode_input_bits opts byte is st = (True, st') \<and> enc_ok opts st' \<and>
         (\<forall>rest. enc_view opts st' rest = enc_view opts st (map (bit byte) is @ rest))"
proof (induction "is" arbitrary: st)
  case Nil
  then show ?case by simp
next
  case (Cons i "is")
  obtain db dbb ob cnt out where st: "st = (db, dbb, ob, cnt, out)" by (cases st) auto
  from Cons.prems st have w: "writer_ok (ob, cnt, out)" and dbb: "dbb < data_bits opts"
    and tb: "take_bit dbb db = db"
    by (auto simp: enc_ok_def)
  define b where "b = bit byte i"
  define db' where "db' = (if b then db OR push_bit dbb 1 else db)"
  from dbb assms have dbb32: "dbb < 32" by simp
  have tb': "take_bit (Suc dbb) db' = db'"
    and m': "map (bit db') [0..<Suc dbb] = map (bit db) [0..<dbb] @ [b]"
    unfolding db'_def using take_bit_Suc_or_unit [OF tb dbb32, of b] by auto
  have unf: "encode_input_bits opts byte (i # is) st =
      (if Suc dbb = data_bits opts then
         (case EncodeAndWriteBlock opts db' (ob, cnt, out) of
            (False, (ob1, cnt1, out1)) \<Rightarrow> (False, (db', Suc dbb, ob1, cnt1, out1))
          | (True, (ob1, cnt1, out1)) \<Rightarrow> encode_input_bits opts byte is (0, 0, ob1, cnt1, out1))
       else encode_input_bits opts byte is (db', Suc dbb, ob, cnt, out))"
    unfolding st db'_def b_def by (simp add: Let_def test_bit_drop_iff')
  show ?case
  proof (cases "Suc dbb = data_bits opts")
    case True
    from EncodeAndWriteBlock_ok [OF w, of opts db'] obtain ob1 cnt1 out1 where
      e: "EncodeAndWriteBlock opts db' (ob, cnt, out) = (True, (ob1, cnt1, out1))"
      and w1: "writer_ok (ob1, cnt1, out1)"
      and wb1: "writer_bits (ob1, cnt1, out1) =
          writer_bits (ob, cnt, out) @ word_bits (total_bits opts) (EncodeBlock opts db')"
      by (metis prod_cases3)
    have ok1: "enc_ok opts (0, 0, ob1, cnt1, out1)"
      using w1 dbb by (simp add: enc_ok_def)
    from Cons.IH [OF ok1] obtain st' where
      r: "encode_input_bits opts byte is (0, 0, ob1, cnt1, out1) = (True, st')" "enc_ok opts st'"
      "\<And>rest. enc_view opts st' rest = enc_view opts (0, 0, ob1, cnt1, out1) (map (bit byte) is @ rest)"
      by blast
    have w: "word_of_bits (map (bit db) [0..<dbb] @ [b]) = db'"
      using word_of_bits_map_bit [OF tb'] unfolding m' .
    have "enc_view opts (0, 0, ob1, cnt1, out1) more = enc_view opts st (b # more)" for more
    proof -
      have "enc_bits opts ((map (bit db) [0..<dbb] @ [b]) @ more) =
          word_bits (total_bits opts) (EncodeBlock opts db') @ enc_bits opts more"
        using True dbb by (subst enc_bits_block) (auto simp: w)
      then show ?thesis
        by (simp add: enc_view_def st wb1)
    qed
    with r True show ?thesis
      unfolding unf e by (simp add: b_def)
  next
    case False
    with dbb have lt: "Suc dbb < data_bits opts" by simp
    have ok1: "enc_ok opts (db', Suc dbb, ob, cnt, out)"
      using w lt tb' by (simp add: enc_ok_def)
    from Cons.IH [OF ok1] obtain st' where
      r: "encode_input_bits opts byte is (db', Suc dbb, ob, cnt, out) = (True, st')" "enc_ok opts st'"
      "\<And>rest. enc_view opts st' rest =
         enc_view opts (db', Suc dbb, ob, cnt, out) (map (bit byte) is @ rest)"
      by blast
    have "enc_view opts (db', Suc dbb, ob, cnt, out) more = enc_view opts st (b # more)" for more
      unfolding enc_view_def st prod.case m' by simp
    with r False show ?thesis
      unfolding unf by (simp add: b_def)
  qed
qed

lemma read_byte_cases:
  assumes "igood ins"
  shows "(ipos ins < length (ibuf ins) \<and>
          read_byte ins = (Some (ibuf ins ! ipos ins), ins\<lparr>ipos := Suc (ipos ins)\<rparr>)) \<or>
         (length (ibuf ins) \<le> ipos ins \<and>
          read_byte ins = (None, ins\<lparr>ieof := True, ifail := True\<rparr>))"
  using assms by (auto simp: read_byte_def)

lemma encode_loop_ok:
  assumes "data_bits opts \<le> 32"
  shows "igood ins \<Longrightarrow> enc_ok opts st \<Longrightarrow>
   \<exists>ins' st'. encode_loop opts ins st = (True, ins', st') \<and> ieof ins' \<and> enc_ok opts st' \<and>
     enc_view opts st' [] = enc_view opts st (bits_of_bytes (drop (ipos ins) (ibuf ins)))"
proof (induction "length (ibuf ins) - ipos ins" arbitrary: ins st)
  case 0
  then have r: "read_byte ins = (None, ins\<lparr>ieof := True, ifail := True\<rparr>)"
    and d: "drop (ipos ins) (ibuf ins) = []"
    using read_byte_cases [of ins] by auto
  show ?case
    using "0.prems"(2) by (subst encode_loop.simps) (simp add: r d bits_of_bytes_Nil)
next
  case (Suc m)
  define b where "b = ibuf ins ! ipos ins"
  define ins1 where "ins1 = ins\<lparr>ipos := Suc (ipos ins)\<rparr>"
  from Suc have lt: "ipos ins < length (ibuf ins)" by simp
  with Suc.prems(1) have r: "read_byte ins = (Some b, ins1)"
    using read_byte_cases [of ins] by (simp add: b_def ins1_def)
  have d: "drop (ipos ins) (ibuf ins) = b # drop (ipos ins1) (ibuf ins1)"
    using lt by (simp add: b_def ins1_def Cons_nth_drop_Suc)
  from encode_input_bits_ok [OF assms Suc.prems(2), of b "[0..<8]"] obtain st1 where
    s1: "encode_input_bits opts b [0..<8] st = (True, st1)" "enc_ok opts st1"
      "\<And>rest. enc_view opts st1 rest = enc_view opts st (map (bit b) [0..<8] @ rest)"
    by blast
  have g1: "igood ins1" using Suc.prems(1) by (simp add: ins1_def igood_def)
  have m1: "m = length (ibuf ins1) - ipos ins1" using Suc(2) by (simp add: ins1_def)
  from Suc(1) [OF m1 g1 s1(2)] obtain ins' st' where
    f: "encode_loop opts ins1 st1 = (True, ins', st')" "ieof ins'" "enc_ok opts st'"
      "enc_view opts st' [] = enc_view opts st1 (bits_of_bytes (drop (ipos ins1) (ibuf ins1)))"
    by blast
  have "encode_loop opts ins st = encode_loop opts ins1 st1"
    by (subst encode_loop.simps) (simp add: r s1(1))
  with f s1(3) show ?case
    by (simp add: d bits_of_bytes_Cons bits_of_byte_def)
qed

lemma FlushOutputByte_ok:
  assumes "writer_ok (ob, cnt, out)"
  shows "\<exists>out' pad. FlushOutputByte ob cnt out = (True, out') \<and> pad < 8 \<and>
     bits_of_bytes (obuf out') = writer_bits (ob, cnt, out) @ replicate pad False \<and>
     \<not> obad out' \<and> oroom out' = None"
proof (cases "cnt = 0")
  case True
  with assms show ?thesis
    by (intro exI [of _ out] exI [of _ 0])
       (simp add: FlushOutputByte_def writer_ok_def writer_bits_def)
next
  case False
  from assms have cnt: "cnt < 8" and ob: "take_bit cnt ob = ob"
    and out: "\<not> obad out" "oroom out = None"
    by (auto simp: writer_ok_def)
  have hi: "\<not> bit ob i" if "cnt \<le> i" for i
  proof -
    have "bit ob i = bit (take_bit cnt ob) i" by (simp add: ob)
    with that show ?thesis by (simp add: bit_take_bit_iff)
  qed
  have "[0..<8] = [0..<cnt] @ [cnt..<8]"
    using cnt by (metis le_add_diff_inverse less_imp_le_nat upt_add_eq_append zero_le)
  moreover have "map (bit ob) [cnt..<8] = replicate (8 - cnt) False"
    using hi by (auto simp: list_eq_iff_nth_eq)
  ultimately have b: "bits_of_byte ob = map (bit ob) [0..<cnt] @ replicate (8 - cnt) False"
    by (simp add: bits_of_byte_def)
  have p: "put ob out = out\<lparr>obuf := obuf out @ [ob]\<rparr>"
    using out by (simp add: put_def write_bytes_def)
  show ?thesis
    using False out cnt
    by (intro exI [of _ "put ob out"] exI [of _ "8 - cnt"])
       (simp add: FlushOutputByte_def Let_def ogood_def p writer_bits_def b
          bits_of_bytes_append bits_of_bytes_Cons bits_of_bytes_Nil)
qed

lemma EncodeStream_ok:
  assumes "0 < data_bits opts" "data_bits opts \<le> 32"
    and "igood ins" "\<not> obad out" "oroom out = None"
  shows "\<exists>ins' out' pad. EncodeStream opts ins out = (True, ins', out') \<and> pad < 8 \<and>
     bits_of_bytes (obuf out') =
       bits_of_bytes (obuf out) @ enc_bits opts (bits_of_bytes (drop (ipos ins) (ibuf ins)))
       @ replicate pad False \<and>
     \<not> obad out' \<and> oroom out' = None"
proof -
  have ok0: "enc_ok opts (0, 0, 0, 0, out)"
    using assms by (simp add: enc_ok_def writer_ok_def)
  from encode_loop_ok [OF assms(2,3) ok0] obtain ins' st' where
    l: "encode_loop opts ins (0, 0, 0, 0, out) = (True, ins', st')" "ieof ins'" "enc_ok opts st'"
      "enc_view opts st' [] =
         enc_view opts (0, 0, 0, 0, out) (bits_of_bytes (drop (ipos ins) (ibuf ins)))"
    by blast
  obtain db dbb ob cnt out1 where st': "st' = (db, dbb, ob, cnt, out1)" by (cases st') auto
  from l(3) st' have w: "writer_ok (ob, cnt, out1)" and dbb: "dbb < data_bits opts"
    and tb: "take_bit dbb db = db"
    by (auto simp: enc_ok_def)
  have v0: "enc_view opts (0, 0, 0, 0, out) more = bits_of_bytes (obuf out) @ enc_bits opts more"
    for more
    by (simp add: enc_view_def writer_bits_def)
  define blk where "blk = (if 0 < dbb then EncodeAndWriteBlock opts db (ob, cnt, out1)
                           else (True, (ob, cnt, out1)))"
  have "\<exists>w2. blk = (True, w2) \<and> writer_ok w2 \<and> writer_bits w2 = enc_view opts st' []"
  proof (cases "0 < dbb")
    case True
    from EncodeAndWriteBlock_ok [OF w, of opts db] obtain w2 where
      "EncodeAndWriteBlock opts db (ob, cnt, out1) = (True, w2)" "writer_ok w2"
      "writer_bits w2 = writer_bits (ob, cnt, out1) @
         word_bits (total_bits opts) (EncodeBlock opts db)"
      by blast
    moreover have "enc_bits opts (map (bit db) [0..<dbb]) =
        word_bits (total_bits opts) (EncodeBlock opts db)"
      using True dbb by (subst enc_bits_last) (simp_all add: word_of_bits_map_bit [OF tb])
    ultimately show ?thesis
      using True by (simp add: blk_def enc_view_def st')
  next
    case False
    with w show ?thesis
      by (simp add: blk_def enc_view_def st' enc_bits_Nil)
  qed
  then obtain ob2 cnt2 out2 where
    b: "blk = (True, (ob2, cnt2, out2))" "writer_ok (ob2, cnt2, out2)"
      "writer_bits (ob2, cnt2, out2) = enc_view opts st' []"
    by (metis prod_cases3)
  from FlushOutputByte_ok [OF b(2)] obtain out' pad where
    f: "FlushOutputByte ob2 cnt2 out2 = (True, out')" "pad < 8"
      "bits_of_bytes (obuf out') = writer_bits (ob2, cnt2, out2) @ replicate pad False"
      "\<not> obad out'" "oroom out' = None"
    by blast
  have "EncodeStream opts ins out = (True, ins', out')"
    using assms(3,4) l(1,2) b(1) f(1)
    unfolding EncodeStream_def st' blk_def
    by (simp add: ogood_def)
  with f b(3) l(4) v0 show ?thesis
    by (intro exI [of _ ins'] exI [of _ out'] exI [of _ pad]) simp
qed

section \<open>Lemmas about the bit reader and the decoder\<close>

lemma map_bit_upt_drop:
  fixes x :: "'a::len word"
  assumes "0 < n"
  shows "map (bit x) [0..<n] = bit x 0 # map (bit (drop_bit 1 x)) [0..<n - 1]"
proof -
  from assms obtain m where n: "n = Suc m" by (cases n) auto
  show ?thesis
    unfolding n by (simp add: map_upt_Suc bit_drop_bit_eq del: upt_Suc)
qed

lemma test_bit0_iff: "(x AND 1 \<noteq> 0) = bit x 0" for x :: "'a::len word"
  by (simp add: and_one_eq bit_0 odd_iff_mod_2_eq_one)

lemma ReadNextEncodedBit_ok:
  assumes "reader_ok st" "reader_bits st = b # rest"
  shows "\<exists>st'. ReadNextEncodedBit st = (True, b, st') \<and> reader_ok st' \<and> reader_bits st' = rest"
proof -
  obtain ins ib av where st: "st = (ins, ib, av)" by (cases st) auto
  from assms(1) st have g: "igood ins" and av: "av \<le> 8" by (auto simp: reader_ok_def)
  show ?thesis
  proof (cases "av = 0")
    case True
    with assms(2) st have nb: "bits_of_bytes (drop (ipos ins) (ibuf ins)) = b # rest"
      by (simp add: reader_bits_def)
    then have "drop (ipos ins) (ibuf ins) \<noteq> []"
      by (auto simp: bits_of_bytes_Nil)
    then have lt: "ipos ins < length (ibuf ins)" by simp
    define x where "x = ibuf ins ! ipos ins"
    define ins1 where "ins1 = ins\<lparr>ipos := Suc (ipos ins)\<rparr>"
    from lt g have r: "read_byte ins = (Some x, ins1)"
      using read_byte_cases [of ins] by (simp add: x_def ins1_def)
    have d: "drop (ipos ins) (ibuf ins) = x # drop (ipos ins1) (ibuf ins1)"
      using lt by (simp add: x_def ins1_def Cons_nth_drop_Suc)
    have "bits_of_byte x = bit x 0 # map (bit (drop_bit 1 x)) [0..<7]"
      unfolding bits_of_byte_def using map_bit_upt_drop [of 8 x] by simp
    with nb d have b: "b = bit x 0"
      and rest: "rest = map (bit (drop_bit 1 x)) [0..<7] @ bits_of_bytes (drop (ipos ins1) (ibuf ins1))"
      by (simp_all add: bits_of_bytes_Cons)
    have g1: "igood ins1" using g by (simp add: ins1_def igood_def)
    have "ReadNextEncodedBit st = (True, b, (ins1, drop_bit 1 x, 7))"
      unfolding ReadNextEncodedBit_def st using True r by (simp add: b test_bit0_iff)
    with g1 rest show ?thesis
      by (simp add: reader_ok_def reader_bits_def)
  next
    case False
    then have "map (bit ib) [0..<av] = bit ib 0 # map (bit (drop_bit 1 ib)) [0..<av - 1]"
      by (intro map_bit_upt_drop) simp
    with assms(2) st have b: "b = bit ib 0"
      and rest: "rest = map (bit (drop_bit 1 ib)) [0..<av - 1] @ bits_of_bytes (drop (ipos ins) (ibuf ins))"
      by (simp_all add: reader_bits_def)
    have "ReadNextEncodedBit st = (True, b, (ins, drop_bit 1 ib, av - 1))"
      unfolding ReadNextEncodedBit_def st using False by (simp add: b test_bit0_iff)
    with g av rest show ?thesis
      by (simp add: reader_ok_def reader_bits_def)
  qed
qed

lemma decode_collect:
  assumes n: "total_bits opts \<le> 32"
  shows "reader_ok (rd s) \<Longrightarrow> reader_bits (rd s) = xs @ rest \<Longrightarrow> xs \<noteq> [] \<Longrightarrow>
    codeword_bits_collected s + length xs = total_bits opts \<Longrightarrow>
    bits_read s + length xs \<le> tcb \<Longrightarrow>
    take_bit (codeword_bits_collected s) (codeword_value s) = codeword_value s \<Longrightarrow>
    \<exists>s1. reader_ok (rd s1) \<and> reader_bits (rd s1) = rest \<and>
      bits_read s1 = bits_read s + length xs \<and>
      map (bit (codeword_value s1)) [0..<total_bits opts] =
        map (bit (codeword_value s)) [0..<codeword_bits_collected s] @ xs \<and>
      take_bit (total_bits opts) (codeword_value s1) = codeword_value s1 \<and>
      codeword_bits_collected s1 = total_bits opts \<and>
      wr s1 = wr s \<and> bits_written s1 = bits_written s \<and>
      decode_loop opts original_bits tcb s =
        (case emit_block opts original_bits s1 of
           (False, s') \<Rightarrow> (False, s')
         | (True, s') \<Rightarrow> decode_loop opts original_bits tcb s')"
proof (induction xs arbitrary: s)
  case Nil
  then show ?case by simp
next
  case (Cons b xs)
  let ?c = "codeword_bits_collected s"
  from Cons.prems(2) have rb: "reader_bits (rd s) = b # (xs @ rest)" by simp
  from ReadNextEncodedBit_ok [OF Cons.prems(1) rb] obtain rd1 where
    r: "ReadNextEncodedBit (rd s) = (True, b, rd1)" "reader_ok rd1" "reader_bits rd1 = xs @ rest"
    by blast
  define s1 where "s1 = collect_bit s b rd1"
  have c32: "?c < 32" using Cons.prems(4) n by simp
  have rd1: "rd s1 = rd1" and br1: "bits_read s1 = Suc (bits_read s)"
    and c1: "codeword_bits_collected s1 = Suc ?c"
    and cv1: "codeword_value s1 =
      (if b then codeword_value s OR push_bit ?c 1 else codeword_value s)"
    and wr1: "wr s1 = wr s" and bw1: "bits_written s1 = bits_written s"
    by (auto simp: s1_def collect_bit_def rd_def wr_def split: prod.splits)
  have tb1: "take_bit (Suc ?c) (codeword_value s1) = codeword_value s1"
    and m1: "map (bit (codeword_value s1)) [0..<Suc ?c] = map (bit (codeword_value s)) [0..<?c] @ [b]"
    unfolding cv1 using take_bit_Suc_or_unit [OF Cons.prems(6) c32, of b] by auto
  have lt: "bits_read s < tcb" using Cons.prems(5) by simp
  have unf: "decode_loop opts original_bits tcb s =
     (if codeword_bits_collected s1 \<noteq> total_bits opts
      then decode_loop opts original_bits tcb s1
      else (case emit_block opts original_bits s1 of
              (False, s') \<Rightarrow> (False, s')
            | (True, s') \<Rightarrow> decode_loop opts original_bits tcb s'))"
    using lt r(1) by (subst decode_loop.simps) (simp add: rd_def [symmetric] s1_def)
  show ?case
  proof (cases "xs = []")
    case True
    with Cons.prems(4) have full: "Suc ?c = total_bits opts" by simp
    show ?thesis
      using True full r rd1 br1 c1 wr1 bw1 tb1 m1 unf
      by (intro exI [of _ s1]) simp
  next
    case False
    then have "0 < length xs" by simp
    moreover from Cons.prems(4) have "?c + Suc (length xs) = total_bits opts" by simp
    ultimately have "Suc ?c \<noteq> total_bits opts" by linarith
    with unf c1 have unf': "decode_loop opts original_bits tcb s =
        decode_loop opts original_bits tcb s1" by simp
    have "\<exists>s2. reader_ok (rd s2) \<and> reader_bits (rd s2) = rest \<and>
      bits_read s2 = bits_read s1 + length xs \<and>
      map (bit (codeword_value s2)) [0..<total_bits opts] =
        map (bit (codeword_value s1)) [0..<codeword_bits_collected s1] @ xs \<and>
      take_bit (total_bits opts) (codeword_value s2) = codeword_value s2 \<and>
      codeword_bits_collected s2 = total_bits opts \<and>
      wr s2 = wr s1 \<and> bits_written s2 = bits_written s1 \<and>
      decode_loop opts original_bits tcb s1 =
        (case emit_block opts original_bits s2 of
           (False, s') \<Rightarrow> (False, s')
         | (True, s') \<Rightarrow> decode_loop opts original_bits tcb s')"
      using False r rd1 br1 c1 tb1 Cons.prems(4,5)
      by (intro Cons.IH) simp_all
    then obtain s2 where s2: "reader_ok (rd s2)" "reader_bits (rd s2) = rest"
      "bits_read s2 = bits_read s1 + length xs"
      "map (bit (codeword_value s2)) [0..<total_bits opts] =
        map (bit (codeword_value s1)) [0..<codeword_bits_collected s1] @ xs"
      "take_bit (total_bits opts) (codeword_value s2) = codeword_value s2"
      "codeword_bits_collected s2 = total_bits opts"
      "wr s2 = wr s1" "bits_written s2 = bits_written s1"
      "decode_loop opts original_bits tcb s1 =
        (case emit_block opts original_bits s2 of
           (False, s') \<Rightarrow> (False, s')
         | (True, s') \<Rightarrow> decode_loop opts original_bits tcb s')"
      by blast
    show ?thesis
      using s2 br1 wr1 bw1 unf' m1 c1
      by (intro exI [of _ s2]) simp
  qed
qed

lemma bit_word_of_bits: "bit (word_of_bits ys) i \<longleftrightarrow> i < 32 \<and> i < length ys \<and> ys ! i"
  unfolding word_of_bits_def bit_horner_sum_bit_iff by (auto simp: possible_bit_word)

lemma take_bit_word_of_bits: "take_bit (length ys) (word_of_bits ys) = word_of_bits ys"
  by (rule bit_eqI) (auto simp: bit_take_bit_iff bit_word_of_bits)

lemma map_bit_word_of_bits:
  assumes "length ys \<le> 32"
  shows "map (bit (word_of_bits ys)) [0..<length ys] = ys"
proof (rule nth_equalityI)
  show "length (map (bit (word_of_bits ys)) [0..<length ys]) = length ys" by simp
next
  fix i assume "i < length (map (bit (word_of_bits ys)) [0..<length ys])"
  then have i: "i < length ys" by simp
  with assms have "i < 32" by linarith
  with i show "map (bit (word_of_bits ys)) [0..<length ys] ! i = ys ! i"
    by (simp add: bit_word_of_bits)
qed

lemma unat_word_of_bits: "unat (word_of_bits ys) < 2 ^ length ys"
proof -
  have "unat (word_of_bits ys) = unat (take_bit (length ys) (word_of_bits ys))"
    by (simp only: take_bit_word_of_bits)
  also have "\<dots> = take_bit (length ys) (unat (word_of_bits ys))"
    by (simp add: unsigned_take_bit_eq)
  also have "\<dots> < 2 ^ length ys" by (rule take_bit_nat_less_exp)
  finally show ?thesis .
qed

lemma u64_less: "x < 2 ^ 64 \<Longrightarrow> u64 x = x"
  unfolding u64_def by (rule mod_less)

lemma emit_block_ok:
  assumes n: "total_bits opts \<le> 32" and k: "0 < data_bits opts"
    and m: "data_bits opts \<le> data_positions (total_bits opts)"
    and fit: "original_bits + data_bits opts < 2 ^ 64"
    and bs: "bs \<noteq> []"
    and cv: "codeword_value s = EncodeBlock opts (word_of_bits (take (data_bits opts) bs))"
    and w: "writer_ok (wr s)"
    and bw: "bits_written s + length bs = original_bits"
  shows "\<exists>s'. emit_block opts original_bits s = (True, s') \<and> writer_ok (wr s') \<and>
     writer_bits (wr s') = writer_bits (wr s) @ take (data_bits opts) bs \<and>
     bits_written s' = bits_written s + length (take (data_bits opts) bs) \<and>
     codeword_value s' = 0 \<and> codeword_bits_collected s' = 0 \<and>
     rd s' = rd s \<and> bits_read s' = bits_read s"
proof -
  define ys where "ys = take (data_bits opts) bs"
  define d where "d = word_of_bits ys"
  have ly: "length ys \<le> data_bits opts" by (simp add: ys_def)
  have k32: "data_bits opts \<le> 32" using n by (simp add: total_bits_def)
  have "unat d < 2 ^ length ys" unfolding d_def by (rule unat_word_of_bits)
  then have "take_bit (data_positions (total_bits opts)) d = d"
    using ly m by (intro take_bit_word_self [where k = "length ys"]) auto
  then have dec: "DecodeBlock opts (codeword_value s) = (d, False)"
    unfolding cv ys_def [symmetric] d_def [symmetric]
    by (simp add: DecodeBlock_EncodeBlock [OF n] data_positions_eq)
  have "bits_written s + data_bits opts < 2 ^ 64" using bw fit by linarith
  then have u: "u64 (bits_written s + data_bits opts) = bits_written s + data_bits opts"
    by (rule u64_less)
  define bto where "bto = (if original_bits < u64 (bits_written s + data_bits opts)
                           then original_bits - bits_written s else data_bits opts)"
  have bto: "bto = length ys"
    unfolding bto_def u ys_def using bw by auto
  from write_word_bits_ok [OF w, of d "[0..<bto]"] obtain ob cnt out' where
    ww: "write_word_bits d [0..<bto] (wr s) = (True, (ob, cnt, out'))"
      "writer_ok (ob, cnt, out')"
      "writer_bits (ob, cnt, out') = writer_bits (wr s) @ map (bit d) [0..<bto]"
    by (metis prod_cases3)
  have "map (bit d) [0..<bto] = ys"
    unfolding bto d_def using ly k32 by (intro map_bit_word_of_bits) simp
  with ww(3) have wb: "writer_bits (ob, cnt, out') = writer_bits (wr s) @ ys" by simp
  define s' where "s' = s\<lparr>output_byte := ob, output_bits_filled := cnt, ds_out := out',
                             bits_written := bits_written s + bto,
                             codeword_value := 0, codeword_bits_collected := 0\<rparr>"
  have "emit_block opts original_bits s = (True, s')"
    unfolding emit_block_def dec using ww(1)
    by (simp add: Let_def bto_def [symmetric] wr_def s'_def)
  moreover have "wr s' = (ob, cnt, out')" "bits_written s' = bits_written s + length ys"
    "codeword_value s' = 0" "codeword_bits_collected s' = 0" "rd s' = rd s"
    "bits_read s' = bits_read s"
    by (simp_all add: s'_def wr_def rd_def bto)
  ultimately show ?thesis
    using ww(2) wb by (intro exI [of _ s']) (simp add: ys_def)
qed

lemma ceil_div_0: "0 < k \<Longrightarrow> ceil_div 0 k = 0"
  unfolding ceil_div_def by simp

lemma ceil_div_step:
  assumes "0 < L" "0 < k"
  shows "ceil_div L k = Suc (ceil_div (L - k) k)"
proof -
  have k0: "k \<noteq> 0" using assms(2) by simp
  show ?thesis
  proof (cases "L \<le> k")
    case True
    from assms have "L + k - 1 = (L - 1) + k" by linarith
    moreover have "((L - 1) + k) div k = (L - 1) div k + 1"
      using k0 by (rule div_add_self2)
    moreover have "(L - 1) div k = 0" using True assms by (intro div_less) linarith
    moreover have "L - k = 0" using True by linarith
    moreover have "(0 + k - 1) div k = 0" using assms by (intro div_less) linarith
    ultimately show ?thesis unfolding ceil_div_def by (simp only: add_0 One_nat_def)
  next
    case False
    then have "L + k - 1 = (L - k + k - 1) + k" using assms by linarith
    moreover have "((L - k + k - 1) + k) div k = (L - k + k - 1) div k + 1"
      using k0 by (rule div_add_self2)
    ultimately show ?thesis unfolding ceil_div_def by (simp only: Suc_eq_plus1)
  qed
qed

lemma take_bit_EncodeBlock: "take_bit (total_bits opts) (EncodeBlock opts d) = EncodeBlock opts d"
  by (rule bit_eqI) (auto simp: bit_take_bit_iff dest: bit_EncodeBlock_less)

lemma decode_blocks:
  assumes n: "total_bits opts \<le> 32" and k: "0 < data_bits opts"
    and m: "data_bits opts \<le> data_positions (total_bits opts)"
    and fit: "original_bits + data_bits opts < 2 ^ 64"
  shows "reader_ok (rd s) \<Longrightarrow> reader_bits (rd s) = enc_bits opts bs @ pad \<Longrightarrow>
    codeword_bits_collected s = 0 \<Longrightarrow> codeword_value s = 0 \<Longrightarrow> writer_ok (wr s) \<Longrightarrow>
    bits_written s + length bs = original_bits \<Longrightarrow>
    bits_read s + ceil_div (length bs) (data_bits opts) * total_bits opts = tcb \<Longrightarrow>
    \<exists>s'. decode_loop opts original_bits tcb s = (True, s') \<and> writer_ok (wr s') \<and>
         writer_bits (wr s') = writer_bits (wr s) @ bs"
proof (induction "length bs" arbitrary: bs s rule: less_induct)
  case less
  show ?case
  proof (cases "bs = []")
    case True
    with less.prems(7) k have "bits_read s = tcb" by (simp add: ceil_div_0)
    then have "decode_loop opts original_bits tcb s = (True, s)"
      by (subst decode_loop.simps) simp
    with True less.prems(5) show ?thesis by simp
  next
    case False
    define d where "d = word_of_bits (take (data_bits opts) bs)"
    define xs where "xs = word_bits (total_bits opts) (EncodeBlock opts d)"
    define bs' where "bs' = drop (data_bits opts) bs"
    have E: "enc_bits opts bs = xs @ enc_bits opts bs'"
      using False k by (subst enc_bits.simps) (simp add: xs_def d_def bs'_def)
    have lx: "length xs = total_bits opts" by (simp add: xs_def word_bits_def)
    have npos: "0 < total_bits opts" using k by (simp add: total_bits_def)
    with lx have xne: "xs \<noteq> []" by auto
    have cd: "ceil_div (length bs) (data_bits opts) = Suc (ceil_div (length bs') (data_bits opts))"
      unfolding bs'_def length_drop using False k by (intro ceil_div_step) simp_all
    have c1: "reader_bits (rd s) = xs @ (enc_bits opts bs' @ pad)"
      using less.prems(2) E by simp
    have c2: "codeword_bits_collected s + length xs = total_bits opts"
      using less.prems(3) lx by simp
    have c3: "bits_read s + length xs \<le> tcb"
      using less.prems(7) cd lx by simp
    have c4: "take_bit (codeword_bits_collected s) (codeword_value s) = codeword_value s"
      using less.prems(3,4) by simp
    from decode_collect [OF n less.prems(1) c1 xne c2 c3 c4, of original_bits]
    obtain s1 where s1: "reader_ok (rd s1)" "reader_bits (rd s1) = enc_bits opts bs' @ pad"
      "bits_read s1 = bits_read s + length xs"
      "map (bit (codeword_value s1)) [0..<total_bits opts] =
        map (bit (codeword_value s)) [0..<codeword_bits_collected s] @ xs"
      "take_bit (total_bits opts) (codeword_value s1) = codeword_value s1"
      "wr s1 = wr s" "bits_written s1 = bits_written s"
      "decode_loop opts original_bits tcb s =
        (case emit_block opts original_bits s1 of
           (False, s') \<Rightarrow> (False, s')
         | (True, s') \<Rightarrow> decode_loop opts original_bits tcb s')"
      by blast
    have "map (bit (codeword_value s1)) [0..<total_bits opts] =
        map (bit (EncodeBlock opts d)) [0..<total_bits opts]"
      using s1(4) less.prems(3) by (simp add: xs_def word_bits_def)
    then have "word_of_bits (map (bit (codeword_value s1)) [0..<total_bits opts]) =
        word_of_bits (map (bit (EncodeBlock opts d)) [0..<total_bits opts])"
      by (rule arg_cong)
    moreover have "word_of_bits (map (bit (codeword_value s1)) [0..<total_bits opts]) =
        codeword_value s1"
      by (rule word_of_bits_map_bit [OF s1(5)])
    moreover have "word_of_bits (map (bit (EncodeBlock opts d)) [0..<total_bits opts]) =
        EncodeBlock opts d"
      by (rule word_of_bits_map_bit [OF take_bit_EncodeBlock])
    ultimately have "codeword_value s1 = EncodeBlock opts d" by simp
    then have cv1: "codeword_value s1 = EncodeBlock opts (word_of_bits (take (data_bits opts) bs))"
      by (simp only: d_def)
    have w1: "writer_ok (wr s1)" using s1(6) less.prems(5) by simp
    have bw1: "bits_written s1 + length bs = original_bits" using s1(7) less.prems(6) by simp
    from emit_block_ok [OF n k m fit False cv1 w1 bw1]
    obtain s2 where s2: "emit_block opts original_bits s1 = (True, s2)" "writer_ok (wr s2)"
      "writer_bits (wr s2) = writer_bits (wr s1) @ take (data_bits opts) bs"
      "bits_written s2 = bits_written s1 + length (take (data_bits opts) bs)"
      "codeword_value s2 = 0" "codeword_bits_collected s2 = 0"
      "rd s2 = rd s1" "bits_read s2 = bits_read s1"
      by blast
    have lt: "length bs' < length bs" using False k by (simp add: bs'_def)
    have i1: "reader_ok (rd s2)" "reader_bits (rd s2) = enc_bits opts bs' @ pad"
      using s1(1,2) s2(7) by simp_all
    have "length (take (data_bits opts) bs) + length bs' = length bs"
      unfolding bs'_def by (simp only: length_take length_drop)
    with bw1 s2(4) have i2: "bits_written s2 + length bs' = original_bits" by linarith
    have i3: "bits_read s2 + ceil_div (length bs') (data_bits opts) * total_bits opts = tcb"
      using less.prems(7) cd lx s1(3) s2(8) by simp
    from less.hyps [OF lt i1 s2(6,5,2) i2 i3] obtain s' where
      f: "decode_loop opts original_bits tcb s2 = (True, s')" "writer_ok (wr s')"
        "writer_bits (wr s') = writer_bits (wr s2) @ bs'"
      by blast
    have "decode_loop opts original_bits tcb s = (True, s')"
      using s1(8) s2(1) f(1) by simp
    moreover have "writer_bits (wr s') = writer_bits (wr s) @ bs"
      using f(3) s2(3) s1(6) by (simp add: bs'_def)
    ultimately show ?thesis using f(2) by blast
  qed
qed

lemma ceil_div_le: 
  assumes "0 < k"
  shows "ceil_div a k \<le> a"
proof -
  have "a \<le> a * k" using assms by simp
  moreover have "Suc a * k = a * k + k" by simp
  ultimately have "a + k - 1 < Suc a * k" using assms by linarith
  then have "(a + k - 1) div k < Suc a" by (rule less_mult_imp_div_less)
  then show ?thesis by (simp add: ceil_div_def)
qed

lemma codec_sizes_fit:
  assumes "len < 2 ^ 56" "0 < k" "k \<le> 16" "n \<le> 24"
  shows "len * 8 + k + 7 < 2 ^ 64" and "ceil_div (len * 8) k * n + 7 < 2 ^ 64"
proof -
  have p: "(2::nat) ^ 64 = 256 * 2 ^ 56" by simp
  from assms(1) have l: "len + 1 \<le> 2 ^ 56" by linarith
  show "len * 8 + k + 7 < 2 ^ 64"
    unfolding p using l assms(3) by linarith
  have "ceil_div (len * 8) k * n \<le> (len * 8) * 24"
    using ceil_div_le [OF assms(2), of "len * 8"] assms(4) by (rule mult_le_mono)
  then show "ceil_div (len * 8) k * n + 7 < 2 ^ 64"
    unfolding p using l by linarith
qed

lemma bits_of_byte_inj:
  assumes "bits_of_byte x = bits_of_byte y"
  shows "x = y"
proof (rule bit_eqI)
  fix i
  show "bit x i = bit y i"
  proof (cases "i < 8")
    case True
    from assms have "bits_of_byte x ! i = bits_of_byte y ! i" by simp
    with True show ?thesis by (simp add: bits_of_byte_def)
  next
    case False
    then show ?thesis by (auto dest!: bit_imp_le_length)
  qed
qed

lemma bits_of_bytes_inj: "bits_of_bytes xs = bits_of_bytes ys \<Longrightarrow> xs = ys"
proof (induction xs arbitrary: ys)
  case Nil
  then have "length (bits_of_bytes ys) = 0" by (simp add: bits_of_bytes_Nil)
  then show ?case by (simp add: length_bits_of_bytes)
next
  case (Cons x xs)
  then have "length (bits_of_bytes ys) = 8 * Suc (length xs)"
    by (metis length_bits_of_bytes length_Cons)
  then obtain y ys' where ys: "ys = y # ys'"
    by (cases ys) (auto simp: length_bits_of_bytes)
  from Cons.prems have "bits_of_byte x @ bits_of_bytes xs = bits_of_byte y @ bits_of_bytes ys'"
    by (simp add: ys bits_of_bytes_Cons)
  then have "bits_of_byte x = bits_of_byte y \<and> bits_of_bytes xs = bits_of_bytes ys'"
    by (intro append_eq_append_conv [THEN iffD1]) (simp_all add: length_bits_of_byte)
  with Cons.IH [of ys'] ys show ?case by (auto dest: bits_of_byte_inj)
qed

lemma DecodeStream_ok:
  assumes k: "0 < data_bits opts" "data_bits opts \<le> 16" and n: "total_bits opts \<le> 24"
    and m: "data_bits opts \<le> data_positions (total_bits opts)"
    and len: "length B < 2 ^ 56"
    and E: "bits_of_bytes E = enc_bits opts (bits_of_bytes B) @ pad"
  shows "\<exists>ins' out'. DecodeStream opts (istream_of E) ostream_unbounded (length B) esz =
           (True, ins', out') \<and> obuf out' = B"
proof (cases "B = []")
  case True
  then have "u64 (length B * 8) = 0" by (simp add: u64_def)
  with True show ?thesis
    by (simp add: DecodeStream_def Let_def igood_def istream_of_def ogood_def ostream_unbounded_def)
next
  case False
  define ob where "ob = length B * 8"
  define cc where "cc = ceil_div ob (data_bits opts)"
  define tcb where "tcb = cc * total_bits opts"
  note fits = codec_sizes_fit [OF len k n, folded ob_def cc_def tcb_def]
  have u1: "u64 (length B * 8) = ob"
    unfolding ob_def [symmetric] using fits(1) by (intro u64_less) linarith
  have "u64 (ob + data_bits opts - 1) = ob + data_bits opts - 1"
    using fits(1) by (intro u64_less) linarith
  then have u2: "u64 (ob + data_bits opts - 1) div data_bits opts = cc"
    by (simp add: cc_def ceil_div_def)
  have u3: "u64 (cc * total_bits opts) = tcb"
    unfolding tcb_def [symmetric] using fits(2) by (intro u64_less) linarith
  have ob0: "ob \<noteq> 0" using False by (simp add: ob_def)
  define s0 where "s0 = \<lparr>ds_in = istream_of E, input_byte = 0, input_bits_available = 0,
      bits_read = 0, codeword_value = 0, codeword_bits_collected = 0, output_byte = 0,
      output_bits_filled = 0, bits_written = 0, ds_out = ostream_unbounded\<rparr>"
  have n32: "total_bits opts \<le> 32" using n by simp
  have fit: "ob + data_bits opts < 2 ^ 64" using fits(1) by linarith
  have p1: "reader_ok (rd s0)"
    by (simp add: s0_def rd_def reader_ok_def igood_def istream_of_def)
  have p2: "reader_bits (rd s0) = enc_bits opts (bits_of_bytes B) @ pad"
    by (simp add: s0_def rd_def reader_bits_def istream_of_def E)
  have p3: "writer_ok (wr s0)"
    by (simp add: s0_def wr_def writer_ok_def ostream_unbounded_def)
  have p4: "bits_written s0 + length (bits_of_bytes B) = ob"
    by (simp add: s0_def length_bits_of_bytes ob_def)
  have p5: "bits_read s0 + ceil_div (length (bits_of_bytes B)) (data_bits opts) * total_bits opts = tcb"
    by (simp add: s0_def length_bits_of_bytes ob_def tcb_def cc_def mult.commute)
  have c0: "codeword_bits_collected s0 = 0" "codeword_value s0 = 0"
    by (simp_all add: s0_def)
  from decode_blocks [OF n32 k(1) m fit p1 p2 c0 p3 p4 p5] obtain s' where
    d: "decode_loop opts ob tcb s0 = (True, s')" "writer_ok (wr s')"
      "writer_bits (wr s') = writer_bits (wr s0) @ bits_of_bytes B"
    by blast
  have w0: "writer_bits (wr s0) = []"
    by (simp add: s0_def wr_def writer_bits_def ostream_unbounded_def bits_of_bytes_Nil)
  from d(2) have cnt: "output_bits_filled s' < 8" by (simp add: wr_def writer_ok_def)
  from d(3) w0 have wb: "bits_of_bytes (obuf (ds_out s')) @
      map (bit (output_byte s')) [0..<output_bits_filled s'] = bits_of_bytes B"
    by (simp add: wr_def writer_bits_def)
  then have "length (bits_of_bytes (obuf (ds_out s')) @
      map (bit (output_byte s')) [0..<output_bits_filled s']) = length (bits_of_bytes B)"
    by (rule arg_cong)
  then have "8 * length (obuf (ds_out s')) + output_bits_filled s' = 8 * length B"
    by (simp add: length_bits_of_bytes)
  with cnt have z: "output_bits_filled s' = 0" by presburger
  with wb have "obuf (ds_out s') = B" by (auto dest: bits_of_bytes_inj)
  moreover have "DecodeStream opts (istream_of E) ostream_unbounded (length B) esz =
      (True, ds_in s', ds_out s')"
    unfolding DecodeStream_def Let_def u1 u2 u3 s0_def [symmetric] d(1)
    using ob0 z
    by (simp add: FlushOutputByte_def igood_def istream_of_def ogood_def ostream_unbounded_def)
  ultimately show ?thesis by blast
qed

lemma length_enc_bits:
  assumes "0 < data_bits opts"
  shows "length (enc_bits opts bs) = ceil_div (length bs) (data_bits opts) * total_bits opts"
proof (induction "length bs" arbitrary: bs rule: less_induct)
  case less
  show ?case
  proof (cases "bs = []")
    case True
    with assms show ?thesis by (simp add: enc_bits_Nil ceil_div_0)
  next
    case False
    have lt: "length (drop (data_bits opts) bs) < length bs"
      using False assms by simp
    have "enc_bits opts bs =
        word_bits (total_bits opts) (EncodeBlock opts (word_of_bits (take (data_bits opts) bs)))
        @ enc_bits opts (drop (data_bits opts) bs)"
      using False assms by (subst enc_bits.simps) simp
    then have "length (enc_bits opts bs) =
        total_bits opts + length (enc_bits opts (drop (data_bits opts) bs))"
      by (simp add: word_bits_def)
    also have "\<dots> = total_bits opts +
        ceil_div (length bs - data_bits opts) (data_bits opts) * total_bits opts"
      using less [OF lt] by simp
    also have "\<dots> = ceil_div (length bs) (data_bits opts) * total_bits opts"
      using ceil_div_step [of "length bs" "data_bits opts"] False assms by simp
    finally show ?thesis .
  qed
qed

lemma ceil_div_8:
  assumes "8 * L = E + pad" "pad < 8"
  shows "L = ceil_div E 8"
  unfolding ceil_div_def using assms by presburger

lemma EncodeStream_length:
  assumes "0 < data_bits opts" "data_bits opts \<le> 32"
  shows "\<exists>ins out. EncodeStream opts (istream_of B) ostream_unbounded = (True, ins, out) \<and>
     length (obuf out) = ceil_div (ceil_div (length B * 8) (data_bits opts) * total_bits opts) 8 \<and>
     (\<exists>pad. bits_of_bytes (obuf out) = enc_bits opts (bits_of_bytes B) @ pad)"
proof -
  have g: "igood (istream_of B)" "\<not> obad ostream_unbounded" "oroom ostream_unbounded = None"
    by (simp_all add: igood_def istream_of_def ostream_unbounded_def)
  from EncodeStream_ok [OF assms g] obtain ins out pad where
    e: "EncodeStream opts (istream_of B) ostream_unbounded = (True, ins, out)" "pad < 8"
      "bits_of_bytes (obuf out) = enc_bits opts (bits_of_bytes B) @ replicate pad False"
    by (auto simp: istream_of_def ostream_unbounded_def bits_of_bytes_Nil)
  from e(3) have "length (bits_of_bytes (obuf out)) =
      length (enc_bits opts (bits_of_bytes B) @ replicate pad False)"
    by (rule arg_cong)
  then have "8 * length (obuf out) =
      ceil_div (length B * 8) (data_bits opts) * total_bits opts + pad"
    by (simp add: length_bits_of_bytes length_enc_bits [OF assms(1)] mult.commute)
  then have "length (obuf out) =
      ceil_div (ceil_div (length B * 8) (data_bits opts) * total_bits opts) 8"
    using e(2) by (rule ceil_div_8)
  with e(1,3) show ?thesis by blast
qed

lemma CalculateEncodedSize_formula:
  assumes k: "0 < data_bits opts" "data_bits opts \<le> 16" and n: "total_bits opts \<le> 24"
    and len: "len < 2 ^ 56"
  shows "CalculateEncodedSize opts len =
     ceil_div (ceil_div (len * 8) (data_bits opts) * total_bits opts) 8"
proof -
  define ob where "ob = len * 8"
  define cc where "cc = ceil_div ob (data_bits opts)"
  define tcb where "tcb = cc * total_bits opts"
  note fits = codec_sizes_fit [OF len k n, folded ob_def cc_def tcb_def]
  have u1: "u64 (len * 8) = ob"
    unfolding ob_def [symmetric] using fits(1) by (intro u64_less) linarith
  have uk: "u64 (data_bits opts) = data_bits opts"
    using fits(1) by (intro u64_less) linarith
  have "parity_bits opts \<le> 24" using n by (simp add: total_bits_def)
  then have ur: "u64 (parity_bits opts) = parity_bits opts"
    by (intro u64_less) simp
  have un: "u64 (data_bits opts + parity_bits opts) = total_bits opts"
    unfolding total_bits_def [symmetric] using n by (intro u64_less) simp
  have "u64 (ob + data_bits opts - 1) = ob + data_bits opts - 1"
    using fits(1) by (intro u64_less) linarith
  then have u2: "u64 (ob + data_bits opts - 1) div data_bits opts = cc"
    by (simp add: cc_def ceil_div_def)
  have u3: "u64 (cc * total_bits opts) = tcb"
    unfolding tcb_def [symmetric] using fits(2) by (intro u64_less) linarith
  have "u64 (tcb + 7) = tcb + 7"
    using fits(2) by (intro u64_less)
  then have u4: "u64 (tcb + 7) div 8 = ceil_div tcb 8"
    by (simp add: ceil_div_def)
  show ?thesis
    unfolding CalculateEncodedSize_def Let_def u1 uk ur un u2 u3 u4
    by (simp only: tcb_def cc_def ob_def)
qed

lemma ceil_div_is_ceiling:
  assumes "0 < b"
  shows "a \<le> ceil_div a b * b" and "a \<le> q * b \<Longrightarrow> ceil_div a b \<le> q"
proof -
  have "(a + b - 1) mod b < b" using assms by simp
  moreover have "(a + b - 1) div b * b + (a + b - 1) mod b = a + b - 1" by simp
  ultimately have "a + b - 1 < (a + b - 1) div b * b + b" by linarith
  then show "a \<le> ceil_div a b * b" unfolding ceil_div_def using assms by linarith
next
  assume "a \<le> q * b"
  then have "a + b - 1 < Suc q * b" using assms by simp
  then have "(a + b - 1) div b < Suc q" by (rule less_mult_imp_div_less)
  then show "ceil_div a b \<le> q" by (simp add: ceil_div_def)
qed

section \<open>Claims about the block codec\<close>

text \<open>
  Claim C10. For every 32-bit input value \<open>d\<close>, \<open>EncodeBlock d\<close> sets only bits at
  codeword positions \<open>1 .. n\<close> with \<open>n = k + r\<close>, so the codeword is strictly below
  \<open>2^(k+r)\<close>; and the bits of \<open>d\<close> at data indices beyond the number of
  non-power-of-two positions in \<open>1 .. n\<close> are ignored: masking them off does not change the
  codeword.
\<close>

theorem EncodeBlock_within_codeword:
  "unat (EncodeBlock opts d) < 2 ^ (data_bits opts + parity_bits opts) \<and>
   EncodeBlock opts (take_bit (data_positions (data_bits opts + parity_bits opts)) d) = EncodeBlock opts d"
proof
  show "unat (EncodeBlock opts d) < 2 ^ (data_bits opts + parity_bits opts)"
    using bit_EncodeBlock_less [of opts d]
    by (intro unat_less_exp_if_bits) (simp add: total_bits_def)
  show "EncodeBlock opts (take_bit (data_positions (data_bits opts + parity_bits opts)) d) = EncodeBlock opts d"
    unfolding EncodeBlock_placed total_bits_def placed_take_bit ..
qed

text \<open>
  Claim C2, as stated, for every \<open>(k, r)\<close> with \<open>1 \<le> k \<le> 16\<close> and \<open>1 \<le> r \<le> 8\<close>: it fails
  for \<open>k = 8\<close>, \<open>r = 3\<close>. The eleven positions hold only seven data bits, so data bit 7 of
  \<open>d = 128\<close> is never stored; flipping codeword bit 0 and decoding yields \<open>(0, false)\<close>.
\<close>

theorem DecodeBlock_single_bit_counterexample:
  "(1::nat) \<le> 8 \<and> (8::nat) \<le> 16 \<and> (1::nat) \<le> 3 \<and> (3::nat) \<le> 8 \<and>
   unat (128 :: u32) < 2 ^ 8 \<and> (0::nat) < 8 + 3 \<and>
   DecodeBlock \<lparr>data_bits = 8, parity_bits = 3\<rparr>
     (EncodeBlock \<lparr>data_bits = 8, parity_bits = 3\<rparr> 128 XOR push_bit 0 1) = (0, False) \<and>
   DecodeBlock \<lparr>data_bits = 8, parity_bits = 3\<rparr>
     (EncodeBlock \<lparr>data_bits = 8, parity_bits = 3\<rparr> 128 XOR push_bit 0 1) \<noteq> (128, False)"
  by code_simp

text \<open>
  Claim C2, amended. For every \<open>(k, r)\<close> with \<open>1 \<le> k \<le> 16\<close>, \<open>1 \<le> r \<le> 8\<close> and
  \<open>k + r + 1 \<le> 2^r\<close>, every data value \<open>d < 2^k\<close> and every bit position \<open>i < k + r\<close>:
  decoding \<open>EncodeBlock d\<close> with bit \<open>i\<close> flipped returns \<open>(d, false)\<close>.
\<close>

theorem DecodeBlock_corrects_single_bit:
  assumes "1 \<le> data_bits opts" "data_bits opts \<le> 16"
    and "1 \<le> parity_bits opts" "parity_bits opts \<le> 8"
    and "data_bits opts + parity_bits opts + 1 \<le> 2 ^ parity_bits opts"
    and "unat d < 2 ^ data_bits opts"
    and "i < data_bits opts + parity_bits opts"
  shows "DecodeBlock opts (EncodeBlock opts d XOR push_bit i 1) = (d, False)"
proof -
  have n: "total_bits opts \<le> 32" using assms by (simp add: total_bits_def)
  have "data_bits opts \<le> data_positions (data_bits opts + parity_bits opts)"
    using assms(5) by (intro data_positions_ge) simp
  then have "take_bit (data_positions (total_bits opts)) d = d"
    using assms(6) unfolding total_bits_def by (intro take_bit_word_self)
  with DecodeBlock_flip [OF n, of i d] assms(7) show ?thesis
    by (simp add: total_bits_def data_positions_eq)
qed

theorem DecodeBlock_corrects_single_bit_witness:
  "DecodeBlock \<lparr>data_bits = 4, parity_bits = 3\<rparr>
     (EncodeBlock \<lparr>data_bits = 4, parity_bits = 3\<rparr> 5 XOR push_bit 2 1) = (5, False)"
  using DecodeBlock_corrects_single_bit [of "\<lparr>data_bits = 4, parity_bits = 3\<rparr>" 5 2]
  by simp

section \<open>Claims about the streaming codec\<close>

text \<open>
  Claim C1, as stated for every \<open>(k, r)\<close> with \<open>1 \<le> k \<le> 16\<close> and \<open>1 \<le> r \<le> 8\<close>: it fails for
  \<open>k = 8\<close>, \<open>r = 3\<close> and the one-byte input \<open>[128]\<close>. Encoding succeeds and gives the two
  bytes \<open>[0, 0]\<close>; decoding them with \<open>original_size = 1\<close> succeeds and writes \<open>[0]\<close>.
\<close>

theorem round_trip_counterexample:
  "fst (EncodeStream \<lparr>data_bits = 8, parity_bits = 3\<rparr> (istream_of [128]) ostream_unbounded) \<and>
   obuf (snd (snd (EncodeStream \<lparr>data_bits = 8, parity_bits = 3\<rparr> (istream_of [128])
     ostream_unbounded))) = [0, 0] \<and>
   fst (DecodeStream \<lparr>data_bits = 8, parity_bits = 3\<rparr> (istream_of [0, 0]) ostream_unbounded 1 2) \<and>
   obuf (snd (snd (DecodeStream \<lparr>data_bits = 8, parity_bits = 3\<rparr> (istream_of [0, 0])
     ostream_unbounded 1 2))) = [0] \<and>
   obuf (snd (snd (DecodeStream \<lparr>data_bits = 8, parity_bits = 3\<rparr> (istream_of [0, 0])
     ostream_unbounded 1 2))) \<noteq> [128]"
  by code_simp

text \<open>
  Claim C1, amended. For every byte sequence \<open>B\<close> of fewer than \<open>2^56\<close> bytes and every
  \<open>(k, r)\<close> with \<open>1 \<le> k \<le> 16\<close>, \<open>1 \<le> r \<le> 8\<close> and \<open>k + r + 1 \<le> 2^r\<close>: \<open>EncodeStream\<close> succeeds
  on \<open>B\<close>, and \<open>DecodeStream\<close> on its output with \<open>original_size = |B|\<close> (and any value of
  the unused \<open>encoded_size\<close>) succeeds and writes exactly the bytes of \<open>B\<close>. The streams are
  fresh: the input at its start and good, the output empty and never failing.
\<close>

theorem EncodeStream_DecodeStream_round_trip:
  assumes "1 \<le> data_bits opts" "data_bits opts \<le> 16"
    and "1 \<le> parity_bits opts" "parity_bits opts \<le> 8"
    and "data_bits opts + parity_bits opts + 1 \<le> 2 ^ parity_bits opts"
    and "length B < 2 ^ 56"
  shows "\<exists>ins out. EncodeStream opts (istream_of B) ostream_unbounded = (True, ins, out) \<and>
     (\<exists>ins' out'. DecodeStream opts (istream_of (obuf out)) ostream_unbounded (length B)
          encoded_size = (True, ins', out') \<and> obuf out' = B)"
proof -
  have k: "0 < data_bits opts" "data_bits opts \<le> 32" using assms(1,2) by simp_all
  have n: "total_bits opts \<le> 24" using assms(2,4) by (simp add: total_bits_def)
  have m: "data_bits opts \<le> data_positions (total_bits opts)"
    unfolding total_bits_def using assms(5) by (intro data_positions_ge) simp
  from EncodeStream_length [OF k, of B] obtain ins out pad where
    e: "EncodeStream opts (istream_of B) ostream_unbounded = (True, ins, out)"
      "bits_of_bytes (obuf out) = enc_bits opts (bits_of_bytes B) @ pad"
    by blast
  from DecodeStream_ok [OF k(1) assms(2) n m assms(6) e(2), of encoded_size] e(1)
  show ?thesis by blast
qed

theorem EncodeStream_DecodeStream_round_trip_witness:
  "\<exists>ins out. EncodeStream \<lparr>data_bits = 4, parity_bits = 3\<rparr> (istream_of [5, 250])
       ostream_unbounded = (True, ins, out) \<and>
     (\<exists>ins' out'. DecodeStream \<lparr>data_bits = 4, parity_bits = 3\<rparr> (istream_of (obuf out))
          ostream_unbounded (length [5, 250 :: u8]) 4 = (True, ins', out') \<and> obuf out' = [5, 250])"
  using EncodeStream_DecodeStream_round_trip
    [of "\<lparr>data_bits = 4, parity_bits = 3\<rparr>" "[5, 250]" 4]
  by simp

text \<open>
  Claim C3, as stated for every byte sequence: it fails for an input of \<open>2^61\<close> bytes with
  \<open>k = 8\<close>, \<open>r = 4\<close>. \<open>EncodeStream\<close> writes \<open>3 * 2^60\<close> bytes, but in
  \<open>CalculateEncodedSize\<close> the product \<open>original_size * 8\<close> wraps to \<open>0\<close> in 64 bits and the
  recorded size is \<open>0\<close>.
\<close>

theorem encoded_size_counterexample:
  "length (obuf (snd (snd (EncodeStream \<lparr>data_bits = 8, parity_bits = 4\<rparr>
       (istream_of (replicate (2 ^ 61) 0)) ostream_unbounded)))) = 3 * 2 ^ 60 \<and>
   CalculateEncodedSize \<lparr>data_bits = 8, parity_bits = 4\<rparr>
       (length (replicate (2 ^ 61) (0 :: u8))) = 0"
proof
  let ?opts = "\<lparr>data_bits = 8, parity_bits = 4\<rparr>"
  let ?B = "replicate (2 ^ 61) (0 :: u8)"
  have l: "length ?B = 2 ^ 61" by (rule length_replicate)
  from EncodeStream_length [of ?opts ?B] obtain ins out where
    e: "EncodeStream ?opts (istream_of ?B) ostream_unbounded = (True, ins, out)"
      "length (obuf out) = ceil_div (ceil_div (length ?B * 8) (data_bits ?opts) * total_bits ?opts) 8"
    by auto
  have "ceil_div (ceil_div (length ?B * 8) (data_bits ?opts) * total_bits ?opts) 8 = 3 * 2 ^ 60"
    unfolding l by (simp add: ceil_div_def total_bits_def)
  with e show "length (obuf (snd (snd (EncodeStream ?opts (istream_of ?B) ostream_unbounded)))) =
      3 * 2 ^ 60"
    by simp
  show "CalculateEncodedSize ?opts (length ?B) = 0"
    unfolding l by (simp add: CalculateEncodedSize_def u64_def)
qed

text \<open>
  Claim C3, amended. For every byte sequence \<open>B\<close> and parameters with \<open>1 \<le> k \<le> 16\<close>,
  \<open>1 \<le> r \<le> 8\<close>: \<open>EncodeStream\<close> succeeds and the byte length of its output is
  \<open>ceil(ceil(|B| * 8 / k) * (k + r) / 8)\<close>; and when \<open>|B| < 2^56\<close>, so that no 64-bit product
  or sum wraps, \<open>CalculateEncodedSize\<close> gives the same value for \<open>|B|\<close>. Here
  \<open>ceil_div a b = (a + b - 1) div b\<close> is the ceiling of \<open>a / b\<close> (lemma \<open>ceil_div_is_ceiling\<close>).
\<close>

theorem EncodeStream_length_formula:
  assumes "1 \<le> data_bits opts" "data_bits opts \<le> 16"
    and "1 \<le> parity_bits opts" "parity_bits opts \<le> 8"
  shows "\<exists>ins out. EncodeStream opts (istream_of B) ostream_unbounded = (True, ins, out) \<and>
     length (obuf out) =
       ceil_div (ceil_div (length B * 8) (data_bits opts) * (data_bits opts + parity_bits opts)) 8 \<and>
     (length B < 2 ^ 56 \<longrightarrow> CalculateEncodedSize opts (length B) = length (obuf out))"
proof -
  have k: "0 < data_bits opts" "data_bits opts \<le> 32" using assms(1,2) by simp_all
  have n: "total_bits opts \<le> 24" using assms(2,4) by (simp add: total_bits_def)
  from EncodeStream_length [OF k, of B] obtain ins out where
    e: "EncodeStream opts (istream_of B) ostream_unbounded = (True, ins, out)"
      "length (obuf out) =
         ceil_div (ceil_div (length B * 8) (data_bits opts) * total_bits opts) 8"
    by blast
  have "CalculateEncodedSize opts (length B) = length (obuf out)" if "length B < 2 ^ 56"
    unfolding e(2) using k(1) assms(2) n that by (rule CalculateEncodedSize_formula)
  with e show ?thesis
    unfolding total_bits_def by blast
qed

theorem EncodeStream_length_formula_witness:
  "\<exists>ins out. EncodeStream \<lparr>data_bits = 8, parity_bits = 4\<rparr> (istream_of [1, 2, 3])
       ostream_unbounded = (True, ins, out) \<and>
     length (obuf out) = 5 \<and>
     CalculateEncodedSize \<lparr>data_bits = 8, parity_bits = 4\<rparr> (length [1, 2, 3 :: u8]) =
       length (obuf out)"
  using EncodeStream_length_formula [of "\<lparr>data_bits = 8, parity_bits = 4\<rparr>" "[1, 2, 3]"]
  by (simp add: ceil_div_def)

text \<open>
  Claim C9, as stated for every input stream: it fails for a stream that is not good. An
  input stream left at end of file by an earlier read (\<open>eofbit\<close> and \<open>failbit\<close> set) makes
  \<open>DecodeStream\<close> return \<open>false\<close> at its first check, also for \<open>original_size = 0\<close>.
\<close>

theorem DecodeStream_zero_size_counterexample:
  "DecodeStream \<lparr>data_bits = 8, parity_bits = 4\<rparr>
     \<lparr>ibuf = [7, 0], ipos = 2, ieof = True, ifail = True\<rparr> ostream_unbounded 0 2 =
   (False, \<lparr>ibuf = [7, 0], ipos = 2, ieof = True, ifail = True\<rparr>, ostream_unbounded)"
  by (simp add: DecodeStream_def igood_def)

text \<open>
  Claim C9, amended. For every input stream and output stream that are good and every
  codec parameter pair, \<open>DecodeStream\<close> with \<open>original_size = 0\<close> returns success and
  leaves both streams as they were: no byte is read and none is written.
\<close>

theorem DecodeStream_zero_size:
  assumes "igood ins" "ogood out"
  shows "DecodeStream opts ins out 0 encoded_size = (True, ins, out)"
  using assms by (simp add: DecodeStream_def u64_def)

theorem DecodeStream_zero_size_witness:
  "igood (istream_of [1, 2, 3]) \<and> ogood ostream_unbounded \<and>
   DecodeStream \<lparr>data_bits = 8, parity_bits = 4\<rparr> (istream_of [1, 2, 3]) ostream_unbounded 0 3 =
     (True, istream_of [1, 2, 3], ostream_unbounded)"
proof -
  have g: "igood (istream_of [1, 2, 3])" "ogood ostream_unbounded"
    by (simp_all add: igood_def istream_of_def ogood_def ostream_unbounded_def)
  with DecodeStream_zero_size [OF g] show ?thesis by simp
qed

end
